theory Spec2Isabelle
  imports Complex_Main "HOL-Library.AList" "HOL-Library.Multiset"
begin

section \<open>Chunking: \<open>splitIntoChunks\<close> (playwright.service.ts, lines 563-572)\<close>

text \<open>
  \<^verbatim>\<open>
  splitIntoChunks<T>(items: T[], chunkCount: number): T[][] {
    const chunkSize = Math.ceil(items.length / chunkCount);
    const chunks: T[][] = [];
    for (let i = 0; i < items.length; i += chunkSize) {
      chunks.push(items.slice(i, i + chunkSize));
    }
    return chunks;
  }
  \<close>
  The chunk count is a natural number (the only caller passes \<open>pages.length\<close>).
  \<open>Array.prototype.slice\<close> with \<open>0 \<le> start \<le> stop\<close> keeps the elements at the
  positions \<open>start, ..., stop - 1\<close> that exist.
\<close>

definition slice :: "'a list \<Rightarrow> nat \<Rightarrow> nat \<Rightarrow> 'a list" where
  "slice xs start stop = take (stop - start) (drop start xs)"

text \<open>
  \<open>Math.ceil(n / k)\<close> for a length \<open>n\<close> and a positive integer \<open>k\<close>, in integer
  arithmetic; \<open>ceil_div_real\<close> below shows that it is the ceiling of the quotient.
\<close>

definition ceil_div :: "nat \<Rightarrow> nat \<Rightarrow> nat" where
  "ceil_div n k = (n + k - 1) div k"

text \<open>
  The \<open>for\<close> loop. It does not terminate when \<open>chunkSize = 0\<close> and \<open>i < items.length\<close>,
  so it is a partial function: \<open>None\<close> stands for a loop that never returns.
\<close>

partial_function (option) chunkLoop ::
  "'a list \<Rightarrow> nat \<Rightarrow> nat \<Rightarrow> 'a list list \<Rightarrow> 'a list list option" where
  "chunkLoop items chunkSize i chunks =
     (if i < length items
      then chunkLoop items chunkSize (i + chunkSize) (chunks @ [slice items i (i + chunkSize)])
      else Some chunks)"

declare chunkLoop.simps [code]

text \<open>
  With \<open>chunkCount = 0\<close> the quotient is \<open>NaN\<close> for an empty array (the loop condition
  \<open>0 < 0\<close> fails at once) and \<open>Infinity\<close> otherwise (one slice takes every item, and
  \<open>i\<close> becomes \<open>Infinity\<close>).
\<close>

definition splitIntoChunks :: "'a list \<Rightarrow> nat \<Rightarrow> 'a list list option" where
  "splitIntoChunks items chunkCount =
     (if chunkCount = 0
      then (if items = [] then Some [] else Some [items])
      else chunkLoop items (ceil_div (length items) chunkCount) 0 [])"

text \<open>The list cut into consecutive pieces of \<open>n\<close> elements, the last one possibly shorter.\<close>

fun chunksOf :: "nat \<Rightarrow> 'a list \<Rightarrow> 'a list list" where
  "chunksOf n xs = (if n = 0 \<or> xs = [] then [] else take n xs # chunksOf n (drop n xs))"

declare chunksOf.simps [simp del]

subsection \<open>Ceiling division\<close>

lemma ceil_div_alt:
  assumes "0 < k"
  shows "ceil_div n k = (if n = 0 then 0 else Suc ((n - 1) div k))"
proof (cases "n = 0")
  case True
  then show ?thesis using assms by (simp add: ceil_div_def)
next
  case False
  then have eq: "n + k - 1 = (n - 1) + k" by simp
  have "((n - 1) + k) div k = Suc ((n - 1) div k)" using assms by simp
  then show ?thesis using False unfolding ceil_div_def eq by simp
qed

lemma ceil_div_step:
  assumes "0 < n" "0 < L"
  shows "Suc (ceil_div (L - n) n) = ceil_div L n"
proof (cases "L \<le> n")
  case True
  then have "(L - 1) div n = 0" using assms by simp
  then show ?thesis using True assms by (simp add: ceil_div_alt)
next
  case False
  then have eq: "L - 1 = (L - n - 1) + n" by simp
  have "((L - n - 1) + n) div n = Suc ((L - n - 1) div n)" using assms(1) by simp
  then have "(L - 1) div n = Suc ((L - n - 1) div n)" by (simp only: eq)
  then show ?thesis using False assms by (simp add: ceil_div_alt)
qed

lemma ceil_div_bounds:
  assumes "0 < k" "0 < n"
  shows "(ceil_div n k - 1) * k < n" and "n \<le> ceil_div n k * k"
proof -
  have e: "n - 1 = k * ((n - 1) div k) + (n - 1) mod k" by simp
  have m: "(n - 1) mod k < k" using assms by simp
  have c: "ceil_div n k = Suc ((n - 1) div k)" using assms by (simp add: ceil_div_alt)
  have "k * ((n - 1) div k) \<le> n - 1" by simp
  then have "k * ((n - 1) div k) < n" using assms(2) by linarith
  then show "(ceil_div n k - 1) * k < n" by (simp add: c mult.commute)
  have "n - 1 < k * ((n - 1) div k) + k" using e m by linarith
  then show "n \<le> ceil_div n k * k" using c assms by (simp add: mult.commute)
qed

lemma ceil_div_real:
  assumes "0 < k"
  shows "int (ceil_div n k) = \<lceil>real n / real k\<rceil>"
proof (cases "n = 0")
  case True
  then show ?thesis using assms by (simp add: ceil_div_alt)
next
  case False
  then have n: "0 < n" by simp
  have "real ((ceil_div n k - 1) * k) < real n"
    using ceil_div_bounds(1)[OF assms n] by (simp only: of_nat_less_iff)
  then have a: "real (ceil_div n k) - 1 < real n / real k"
    using assms n by (simp add: pos_less_divide_eq ceil_div_alt)
  have "real n \<le> real (ceil_div n k * k)"
    using ceil_div_bounds(2)[OF assms n] by (simp only: of_nat_le_iff)
  then have b: "real n / real k \<le> real (ceil_div n k)"
    using assms by (simp add: pos_divide_le_eq)
  show ?thesis
    using a b ceiling_unique[of "int (ceil_div n k)" "real n / real k"] by simp
qed

lemma ceil_div_ceil_div:
  assumes "0 < k"
  shows "ceil_div n (ceil_div n k) \<le> k"
proof (cases "n = 0")
  case True
  then show ?thesis using assms by (simp add: ceil_div_def)
next
  case False
  let ?cs = "Suc ((n - 1) div k)"
  have m: "(n - 1) mod k < k" using assms by simp
  have e: "k * ((n - 1) div k) + (n - 1) mod k = n - 1" by simp
  have "n - 1 < k * ((n - 1) div k) + k" using e m by linarith
  then have "n - 1 < k * ?cs" by simp
  then have "(n - 1) div ?cs < k" by (simp add: div_less_iff_less_mult mult.commute)
  then show ?thesis using False assms by (simp add: ceil_div_alt)
qed
subsection \<open>The loop computes \<open>chunksOf\<close>\<close>

lemma chunkLoop_chunksOf:
  "0 < cs \<Longrightarrow> chunkLoop items cs i acc = Some (acc @ chunksOf cs (drop i items))"
proof (induction "length items - i" arbitrary: i acc rule: less_induct)
  case less
  show ?case
  proof (cases "i < length items")
    case True
    then have "length items - (i + cs) < length items - i" using less.prems by arith
    from less.hyps[OF this less.prems]
    have "chunkLoop items cs (i + cs) (acc @ [slice items i (i + cs)])
          = Some ((acc @ [slice items i (i + cs)]) @ chunksOf cs (drop (i + cs) items))" .
    moreover have "chunksOf cs (drop i items)
          = take cs (drop i items) # chunksOf cs (drop (i + cs) items)"
      using True less.prems by (subst chunksOf.simps) (simp add: add.commute)
    ultimately show ?thesis using True
      by (subst chunkLoop.simps) (simp add: slice_def)
  next
    case False
    then show ?thesis
      by (subst chunkLoop.simps) (simp add: chunksOf.simps)
  qed
qed

lemma concat_chunksOf: "0 < n \<Longrightarrow> concat (chunksOf n xs) = xs"
proof (induction n xs rule: chunksOf.induct)
  case (1 n xs)
  then show ?case by (subst chunksOf.simps) auto
qed

lemma length_chunksOf: "0 < n \<Longrightarrow> length (chunksOf n xs) = ceil_div (length xs) n"
proof (induction n xs rule: chunksOf.induct)
  case (1 n xs)
  show ?case
  proof (cases "xs = []")
    case True
    then show ?thesis using 1 by (simp add: chunksOf.simps ceil_div_alt)
  next
    case False
    then have "length (chunksOf n xs) = Suc (ceil_div (length xs - n) n)"
      using 1 by (subst chunksOf.simps) simp
    also have "\<dots> = ceil_div (length xs) n"
      using False 1(2) by (simp add: ceil_div_step)
    finally show ?thesis .
  qed
qed

lemma nth_chunksOf:
  "0 < n \<Longrightarrow> i < length (chunksOf n xs) \<Longrightarrow> chunksOf n xs ! i = take n (drop (i * n) xs)"
proof (induction n xs arbitrary: i rule: chunksOf.induct)
  case (1 n xs)
  show ?case
  proof (cases "xs = []")
    case True
    then show ?thesis using 1 by (simp add: chunksOf.simps)
  next
    case False
    show ?thesis
    proof (cases i)
      case 0
      then show ?thesis using False 1(2) by (subst chunksOf.simps) simp
    next
      case (Suc j)
      have cs: "chunksOf n xs = take n xs # chunksOf n (drop n xs)"
        using False 1(2) by (subst chunksOf.simps) simp
      then have "j < length (chunksOf n (drop n xs))" using 1(3) Suc by simp
      with 1(1) False 1(2)
      have "chunksOf n (drop n xs) ! j = take n (drop (j * n) (drop n xs))" by simp
      then show ?thesis using cs Suc by (simp add: add.commute)
    qed
  qed
qed

lemma chunksOf_not_last:
  assumes "0 < n" "Suc i < length (chunksOf n xs)"
  shows "length (chunksOf n xs ! i) = n"
proof -
  have xs: "0 < length xs" using assms by (cases xs) (simp_all add: chunksOf.simps)
  have "Suc i \<le> ceil_div (length xs) n - 1" using assms by (simp add: length_chunksOf)
  then have "Suc i * n \<le> (ceil_div (length xs) n - 1) * n" by (rule mult_le_mono1)
  also have "\<dots> < length xs" using ceil_div_bounds(1)[OF assms(1) xs] .
  finally have "n \<le> length xs - i * n" by simp
  moreover have "i < length (chunksOf n xs)" using assms(2) by simp
  ultimately show ?thesis using assms(1) by (simp add: nth_chunksOf)
qed

lemma chunksOf_nonempty:
  assumes "0 < n" "i < length (chunksOf n xs)"
  shows "0 < length (chunksOf n xs ! i)" and "length (chunksOf n xs ! i) \<le> n"
proof -
  have xs: "0 < length xs" using assms by (cases xs) (simp_all add: chunksOf.simps)
  have "i \<le> ceil_div (length xs) n - 1" using assms by (simp add: length_chunksOf)
  then have "i * n \<le> (ceil_div (length xs) n - 1) * n" by (rule mult_le_mono1)
  also have "\<dots> < length xs" using ceil_div_bounds(1)[OF assms(1) xs] .
  finally show "0 < length (chunksOf n xs ! i)" using assms by (simp add: nth_chunksOf)
  show "length (chunksOf n xs ! i) \<le> n" using assms by (simp add: nth_chunksOf)
qed

lemma splitIntoChunks_chunksOf:
  assumes "1 \<le> k"
  shows "splitIntoChunks items k = Some (chunksOf (ceil_div (length items) k) items)"
proof (cases "items = []")
  case True
  have "chunkLoop ([] :: 'a list) (ceil_div 0 k) 0 [] = Some []"
    by (subst chunkLoop.simps) simp
  moreover have "chunksOf (ceil_div 0 k) ([] :: 'a list) = []"
    by (subst chunksOf.simps) simp
  ultimately show ?thesis using assms True
    by (simp add: splitIntoChunks_def)
next
  case False
  then have "0 < ceil_div (length items) k" using assms by (simp add: ceil_div_alt)
  then show ?thesis using assms
    by (simp add: splitIntoChunks_def chunkLoop_chunksOf)
qed

subsection \<open>Claim C1\<close>

text \<open>
  C1. For every list \<open>items\<close> and every chunk count \<open>k \<ge> 1\<close>, \<open>splitIntoChunks\<close> returns; the
  chunks are contiguous slices of \<open>items\<close> of size \<open>ceil (length items / k)\<close>: every chunk
  but the last has exactly that size, the last one holds the remainder (at least one item,
  at most that size), there are at most \<open>k\<close> chunks, and their concatenation, in order,
  is \<open>items\<close>. In particular the ten numbers 1..10 in 3 chunks give chunks of the sizes
  4, 4, 2, and the empty list gives no chunk at all.
\<close>

theorem splitIntoChunks_contiguous_ceil:
  assumes "1 \<le> k"
  shows "(\<exists>chunks. splitIntoChunks items k = Some chunks
           \<and> concat chunks = items
           \<and> (\<forall>i < length chunks.
                 chunks ! i = slice items (i * ceil_div (length items) k)
                                (i * ceil_div (length items) k + ceil_div (length items) k))
           \<and> (\<forall>i. Suc i < length chunks \<longrightarrow> length (chunks ! i) = ceil_div (length items) k)
           \<and> (chunks \<noteq> [] \<longrightarrow> 0 < length (last chunks)
                 \<and> length (last chunks) \<le> ceil_div (length items) k)
           \<and> length chunks \<le> k)
    \<and> int (ceil_div (length items) k) = \<lceil>real (length items) / real k\<rceil>
    \<and> splitIntoChunks [1, 2, 3, 4, 5, 6, 7, 8, 9, 10 :: nat] 3
           = Some [[1, 2, 3, 4], [5, 6, 7, 8], [9, 10]]
    \<and> splitIntoChunks ([] :: 'a list) 3 = Some []"
proof -
  let ?cs = "ceil_div (length items) k"
  let ?chunks = "chunksOf ?cs items"
  have k: "0 < k" using assms by simp
  have ret: "splitIntoChunks items k = Some ?chunks" by (rule splitIntoChunks_chunksOf[OF assms])
  have "concat ?chunks = items \<and>
        (\<forall>i < length ?chunks. ?chunks ! i = slice items (i * ?cs) (i * ?cs + ?cs)) \<and>
        (\<forall>i. Suc i < length ?chunks \<longrightarrow> length (?chunks ! i) = ?cs) \<and>
        (?chunks \<noteq> [] \<longrightarrow> 0 < length (last ?chunks) \<and> length (last ?chunks) \<le> ?cs) \<and>
        length ?chunks \<le> k"
  proof (cases "items = []")
    case True
    then show ?thesis by (simp add: chunksOf.simps)
  next
    case False
    then have cs: "0 < ?cs" using k by (simp add: ceil_div_alt)
    have c1: "concat ?chunks = items" by (rule concat_chunksOf[OF cs])
    have c2: "\<forall>i < length ?chunks. ?chunks ! i = slice items (i * ?cs) (i * ?cs + ?cs)"
      using cs by (simp add: nth_chunksOf slice_def)
    have c3: "\<forall>i. Suc i < length ?chunks \<longrightarrow> length (?chunks ! i) = ?cs"
      using cs by (simp add: chunksOf_not_last)
    have c4: "?chunks \<noteq> [] \<longrightarrow> 0 < length (last ?chunks) \<and> length (last ?chunks) \<le> ?cs"
    proof
      assume ne: "?chunks \<noteq> []"
      then have l: "last ?chunks = ?chunks ! (length ?chunks - 1)" by (rule last_conv_nth)
      have "length ?chunks - 1 < length ?chunks" using ne by simp
      from chunksOf_nonempty[OF cs this] l
      show "0 < length (last ?chunks) \<and> length (last ?chunks) \<le> ?cs" by simp
    qed
    have c5: "length ?chunks \<le> k"
      using ceil_div_ceil_div[OF k, of "length items"] cs by (simp add: length_chunksOf)
    show ?thesis using c1 c2 c3 c4 c5 by (intro conjI)
  qed
  with ret have g1: "\<exists>chunks. splitIntoChunks items k = Some chunks
           \<and> concat chunks = items
           \<and> (\<forall>i < length chunks.
                 chunks ! i = slice items (i * ceil_div (length items) k)
                                (i * ceil_div (length items) k + ceil_div (length items) k))
           \<and> (\<forall>i. Suc i < length chunks \<longrightarrow> length (chunks ! i) = ceil_div (length items) k)
           \<and> (chunks \<noteq> [] \<longrightarrow> 0 < length (last chunks)
                 \<and> length (last chunks) \<le> ceil_div (length items) k)
           \<and> length chunks \<le> k"
    by (intro exI[of _ ?chunks] conjI) (elim conjE, assumption)+
  have g2: "int ?cs = \<lceil>real (length items) / real k\<rceil>" by (rule ceil_div_real[OF k])
  have g3: "splitIntoChunks [1, 2, 3, 4, 5, 6, 7, 8, 9, 10 :: nat] 3
           = Some [[1, 2, 3, 4], [5, 6, 7, 8], [9, 10]]"
    by code_simp
  have "chunkLoop ([] :: 'a list) (ceil_div 0 3) 0 [] = Some []"
    by (subst chunkLoop.simps) simp
  then have g4: "splitIntoChunks ([] :: 'a list) 3 = Some []"
    by (simp add: splitIntoChunks_def)
  show ?thesis using g1 g2 g3 g4 by (intro conjI)
qed

theorem splitIntoChunks_contiguous_ceil_witness:
  "(1::nat) \<le> 2 \<and>
   splitIntoChunks [10, 20, 30, 40, 50 :: nat] 2 = Some [[10, 20, 30], [40, 50]] \<and>
   (\<exists>chunks. splitIntoChunks [10, 20, 30, 40, 50 :: nat] 2 = Some chunks
      \<and> concat chunks = [10, 20, 30, 40, 50] \<and> length chunks \<le> 2)"
proof -
  have h: "(1::nat) \<le> 2" by simp
  have e: "splitIntoChunks [10, 20, 30, 40, 50 :: nat] 2 = Some [[10, 20, 30], [40, 50]]"
    by code_simp
  from splitIntoChunks_contiguous_ceil[OF h, of "[10, 20, 30, 40, 50 :: nat]", THEN conjunct1]
  have "\<exists>chunks. splitIntoChunks [10, 20, 30, 40, 50 :: nat] 2 = Some chunks
      \<and> concat chunks = [10, 20, 30, 40, 50] \<and> length chunks \<le> 2"
    by blast
  with h e show ?thesis by blast
qed


section \<open>Parallel batch processing: \<open>processItemsInParallel\<close> (playwright.service.ts, lines 585-643)\<close>

record ('pg, 'a, 'r, 'e) args =
  pages :: "'pg list"
  items :: "'a list"
  processItemFn :: "'pg option \<Rightarrow> 'a \<Rightarrow> 'e + 'r"
  batchSize :: nat
  onBatchComplete :: "('r list \<Rightarrow> 'e option) option"
  onProgress :: "(nat \<Rightarrow> nat \<Rightarrow> 'e option) option"

record 'r report =
  successCount :: nat
  failCount :: nat
  results :: "'r list"

record ('r, 'e) shared = "'r report" +
  batchCalls :: "(nat \<times> 'r list) list"
  progressCalls :: "(nat \<times> nat) list"
  rejection :: "'e option"

datatype ('r, 'e) pc =
    AwaitItem "'e + 'r"
  | AwaitBatch "'e option"
  | AwaitFinal "'e option"
  | Finished
  | Rejected 'e

record ('a, 'r, 'e) task =
  pageIndex :: nat
  remaining :: "'a list"
  localBatch :: "'r list"
  pc :: "('r, 'e) pc"

definition page_at :: "'pg list \<Rightarrow> nat \<Rightarrow> 'pg option" where
  "page_at ps i = (if i < length ps then Some (ps ! i) else None)"

definition report_progress ::
  "('pg, 'a, 'r, 'e) args \<Rightarrow> ('r, 'e) shared \<Rightarrow> 'e option \<times> ('r, 'e) shared" where
  "report_progress A sh =
     (case onProgress A of
        None \<Rightarrow> (None, sh)
      | Some f \<Rightarrow>
          (f (successCount sh + failCount sh) (length (items A)),
           sh\<lparr>progressCalls := progressCalls sh
                 @ [(successCount sh + failCount sh, length (items A))]\<rparr>))"

definition next_item ::
  "('pg, 'a, 'r, 'e) args \<Rightarrow> ('a, 'r, 'e) task \<Rightarrow> ('r, 'e) shared
     \<Rightarrow> ('a, 'r, 'e) task \<times> ('r, 'e) shared" where
  "next_item A t sh =
     (case remaining t of
        x # xs \<Rightarrow>
          (t\<lparr>remaining := xs,
              pc := AwaitItem (processItemFn A (page_at (pages A) (pageIndex t)) x)\<rparr>, sh)
      | [] \<Rightarrow>
          (case onBatchComplete A of
             Some f \<Rightarrow>
               if 0 < length (localBatch t)
               then (t\<lparr>pc := AwaitFinal (f (localBatch t))\<rparr>,
                     sh\<lparr>batchCalls := batchCalls sh @ [(pageIndex t, localBatch t)]\<rparr>)
               else (t\<lparr>pc := Finished\<rparr>, sh)
           | None \<Rightarrow> (t\<lparr>pc := Finished\<rparr>, sh)))"

definition catch_block ::
  "('pg, 'a, 'r, 'e) args \<Rightarrow> ('a, 'r, 'e) task \<Rightarrow> ('r, 'e) shared
     \<Rightarrow> ('a, 'r, 'e) task \<times> ('r, 'e) shared" where
  "catch_block A t sh =
     (case report_progress A (sh\<lparr>failCount := failCount sh + 1\<rparr>) of
        (None, sh') \<Rightarrow> next_item A t sh'
      | (Some e, sh') \<Rightarrow> (t\<lparr>pc := Rejected e\<rparr>, sh'))"

definition count_success ::
  "('pg, 'a, 'r, 'e) args \<Rightarrow> ('a, 'r, 'e) task \<Rightarrow> ('r, 'e) shared
     \<Rightarrow> ('a, 'r, 'e) task \<times> ('r, 'e) shared" where
  "count_success A t sh =
     (case report_progress A (sh\<lparr>successCount := successCount sh + 1\<rparr>) of
        (None, sh') \<Rightarrow> next_item A t sh'
      | (Some e, sh') \<Rightarrow> catch_block A t sh')"

definition resume ::
  "('pg, 'a, 'r, 'e) args \<Rightarrow> ('a, 'r, 'e) task \<Rightarrow> ('r, 'e) shared
     \<Rightarrow> ('a, 'r, 'e) task \<times> ('r, 'e) shared" where
  "resume A t sh =
     (case pc t of
        AwaitItem (Inl e) \<Rightarrow> catch_block A t sh
      | AwaitItem (Inr r) \<Rightarrow>
          (let t1 = t\<lparr>localBatch := localBatch t @ [r]\<rparr>;
               sh1 = sh\<lparr>results := results sh @ [r]\<rparr>
           in case onBatchComplete A of
                Some f \<Rightarrow>
                  if batchSize A \<le> length (localBatch t1)
                  then (t1\<lparr>pc := AwaitBatch (f (localBatch t1))\<rparr>,
                        sh1\<lparr>batchCalls := batchCalls sh1 @ [(pageIndex t1, localBatch t1)]\<rparr>)
                  else count_success A t1 sh1
              | None \<Rightarrow> count_success A t1 sh1)
      | AwaitBatch (Some e) \<Rightarrow> catch_block A t sh
      | AwaitBatch None \<Rightarrow> count_success A (t\<lparr>localBatch := []\<rparr>) sh
      | AwaitFinal (Some e) \<Rightarrow> (t\<lparr>pc := Rejected e\<rparr>, sh)
      | AwaitFinal None \<Rightarrow> (t\<lparr>pc := Finished\<rparr>, sh)
      | Finished \<Rightarrow> (t, sh)
      | Rejected e \<Rightarrow> (t, sh))"

definition settled :: "('a, 'r, 'e) task \<Rightarrow> bool" where
  "settled t = (case pc t of Finished \<Rightarrow> True | Rejected e \<Rightarrow> True | _ \<Rightarrow> False)"

definition pending :: "('a, 'r, 'e) task \<Rightarrow> nat" where
  "pending t =
     (case pc t of
        AwaitItem p \<Rightarrow> 2 * length (remaining t) + 3
      | AwaitBatch p \<Rightarrow> 2 * length (remaining t) + 2
      | AwaitFinal p \<Rightarrow> 1
      | Finished \<Rightarrow> 0
      | Rejected e \<Rightarrow> 0)"

definition unsettled :: "('a, 'r, 'e) task list \<Rightarrow> nat list" where
  "unsettled tasks = filter (\<lambda>j. \<not> settled (tasks ! j)) [0..<length tasks]"

definition pick :: "nat list \<Rightarrow> ('a, 'r, 'e) task list \<Rightarrow> nat option" where
  "pick sched tasks =
     (case unsettled tasks of
        [] \<Rightarrow> None
      | j # js \<Rightarrow> Some ((j # js) ! (case sched of [] \<Rightarrow> 0 | c # cs \<Rightarrow> c mod length (j # js))))"

definition note_rejection :: "('a, 'r, 'e) task \<Rightarrow> ('r, 'e) shared \<Rightarrow> ('r, 'e) shared" where
  "note_rejection t sh =
     (case pc t of
        Rejected e \<Rightarrow> (if rejection sh = None then sh\<lparr>rejection := Some e\<rparr> else sh)
      | _ \<Rightarrow> sh)"

definition step ::
  "('pg, 'a, 'r, 'e) args \<Rightarrow> nat \<Rightarrow> ('a, 'r, 'e) task list \<times> ('r, 'e) shared
     \<Rightarrow> ('a, 'r, 'e) task list \<times> ('r, 'e) shared" where
  "step A j st =
     (case resume A (fst st ! j) (snd st) of
        (t', sh') \<Rightarrow> ((fst st)[j := t'], note_rejection t' sh'))"

lemma resume_pending:
  "\<not> settled t \<Longrightarrow> pending (fst (resume A t sh)) < pending t"
  by (auto simp: resume_def settled_def pending_def count_success_def catch_block_def
      next_item_def report_progress_def Let_def
      split: pc.splits sum.splits option.splits list.splits prod.splits if_splits)


lemma sum_list_map_update:
  fixes f :: "'b \<Rightarrow> 'c::comm_monoid_add"
  shows "j < length xs \<Longrightarrow> sum_list (map f (xs[j := y])) + f (xs ! j) = sum_list (map f xs) + f y"
proof (induction xs arbitrary: j)
  case Nil
  then show ?case by simp
next
  case (Cons x xs)
  show ?case
  proof (cases j)
    case 0
    then show ?thesis by (simp add: ac_simps)
  next
    case (Suc i)
    then have "i < length xs" using Cons.prems by simp
    from Cons.IH[OF this] show ?thesis using Suc by (simp add: ac_simps)
  qed
qed

lemma pick_unsettled:
  assumes "pick sched tasks = Some j"
  shows "j < length tasks" and "\<not> settled (tasks ! j)"
proof -
  have "j \<in> set (unsettled tasks)"
  proof (cases "unsettled tasks")
    case Nil
    then show ?thesis using assms by (simp add: pick_def)
  next
    case (Cons k ks)
    let ?i = "case sched of [] \<Rightarrow> 0 | c # cs \<Rightarrow> c mod length (k # ks)"
    have "?i < length (k # ks)" by (cases sched) simp_all
    then have "(k # ks) ! ?i \<in> set (k # ks)" by (rule nth_mem)
    moreover have "j = (k # ks) ! ?i" using assms Cons by (simp add: pick_def)
    ultimately show ?thesis using Cons by simp
  qed
  then show "j < length tasks" and "\<not> settled (tasks ! j)"
    by (auto simp: unsettled_def)
qed

lemma step_decreases:
  assumes "pick sched (fst st) = Some j"
  shows "sum_list (map pending (fst (step A j st))) < sum_list (map pending (fst st))"
proof -
  have j: "j < length (fst st)" and u: "\<not> settled (fst st ! j)"
    using pick_unsettled[OF assms] by simp_all
  obtain t' sh' where r: "resume A (fst st ! j) (snd st) = (t', sh')"
    by (cases "resume A (fst st ! j) (snd st)")
  then have "pending t' < pending (fst st ! j)" using resume_pending[OF u, of A "snd st"] by simp
  moreover have "sum_list (map pending ((fst st)[j := t'])) + pending (fst st ! j)
      = sum_list (map pending (fst st)) + pending t'"
    by (rule sum_list_map_update[OF j])
  ultimately show ?thesis using r by (simp add: step_def)
qed

function run ::
  "('pg, 'a, 'r, 'e) args \<Rightarrow> nat list \<Rightarrow> ('a, 'r, 'e) task list \<times> ('r, 'e) shared
     \<Rightarrow> ('a, 'r, 'e) task list \<times> ('r, 'e) shared" where
  "run A sched st =
     (case pick sched (fst st) of
        None \<Rightarrow> st
      | Some j \<Rightarrow> run A (tl sched) (step A j st))"
  by pat_completeness auto
termination
  by (relation "measure (\<lambda>(A, sched, st). sum_list (map pending (fst st)))")
     (simp_all add: step_decreases)

declare run.simps [simp del]

definition start ::
  "('pg, 'a, 'r, 'e) args \<Rightarrow> 'a list list \<Rightarrow> ('a, 'r, 'e) task list \<times> ('r, 'e) shared" where
  "start A chunks =
     foldl (\<lambda>st (chunk, j).
              case next_item A \<lparr>pageIndex = j, remaining = chunk, localBatch = [], pc = Finished\<rparr>
                     (snd st) of
                (t, sh) \<Rightarrow> (fst st @ [t], note_rejection t sh))
       ([], \<lparr>successCount = 0, failCount = 0, results = [],
             batchCalls = [], progressCalls = [], rejection = None\<rparr>)
       (zip chunks [0..<length chunks])"

definition processItemsInParallel_run ::
  "('pg, 'a, 'r, 'e) args \<Rightarrow> nat list \<Rightarrow> (('a, 'r, 'e) task list \<times> ('r, 'e) shared) option" where
  "processItemsInParallel_run A sched =
     (case splitIntoChunks (items A) (length (pages A)) of
        None \<Rightarrow> None
      | Some chunks \<Rightarrow> Some (run A sched (start A chunks)))"

definition processItemsInParallel ::
  "('pg, 'a, 'r, 'e) args \<Rightarrow> nat list \<Rightarrow> ('e + 'r report) option" where
  "processItemsInParallel A sched =
     (case processItemsInParallel_run A sched of
        None \<Rightarrow> None
      | Some (tasks, sh) \<Rightarrow>
          Some (case rejection sh of
                  Some e \<Rightarrow> Inl e
                | None \<Rightarrow> Inr \<lparr>successCount = successCount sh, failCount = failCount sh,
                                 results = results sh\<rparr>))"


subsection \<open>What is still to be counted\<close>

fun successes :: "('e + 'r) list \<Rightarrow> 'r list" where
  "successes [] = []"
| "successes (Inl e # os) = successes os"
| "successes (Inr r # os) = r # successes os"

definition failures :: "('e + 'r) list \<Rightarrow> nat" where
  "failures os = length (filter isl os)"

definition callbacks_ok :: "('pg, 'a, 'r, 'e) args \<Rightarrow> bool" where
  "callbacks_ok A =
     ((case onBatchComplete A of None \<Rightarrow> True | Some f \<Rightarrow> \<forall>b. f b = None) \<and>
      (case onProgress A of None \<Rightarrow> True | Some g \<Rightarrow> \<forall>c n. g c n = None))"

definition chunk_outcomes :: "('pg, 'a, 'r, 'e) args \<Rightarrow> nat \<Rightarrow> 'a list \<Rightarrow> ('e + 'r) list" where
  "chunk_outcomes A j chunk = map (processItemFn A (page_at (pages A) j)) chunk"

definition rest_outs :: "('pg, 'a, 'r, 'e) args \<Rightarrow> ('a, 'r, 'e) task \<Rightarrow> ('e + 'r) list" where
  "rest_outs A t = chunk_outcomes A (pageIndex t) (remaining t)"

definition todo_succ :: "('pg, 'a, 'r, 'e) args \<Rightarrow> ('a, 'r, 'e) task \<Rightarrow> nat" where
  "todo_succ A t =
     (case pc t of
        AwaitItem p \<Rightarrow> length (successes (p # rest_outs A t))
      | AwaitBatch q \<Rightarrow> Suc (length (successes (rest_outs A t)))
      | _ \<Rightarrow> 0)"

definition todo_fail :: "('pg, 'a, 'r, 'e) args \<Rightarrow> ('a, 'r, 'e) task \<Rightarrow> nat" where
  "todo_fail A t =
     (case pc t of
        AwaitItem p \<Rightarrow> failures (p # rest_outs A t)
      | AwaitBatch q \<Rightarrow> failures (rest_outs A t)
      | _ \<Rightarrow> 0)"

definition todo_results :: "('pg, 'a, 'r, 'e) args \<Rightarrow> ('a, 'r, 'e) task \<Rightarrow> 'r multiset" where
  "todo_results A t =
     (case pc t of
        AwaitItem p \<Rightarrow> mset (successes (p # rest_outs A t))
      | AwaitBatch q \<Rightarrow> mset (successes (rest_outs A t))
      | _ \<Rightarrow> {#})"

lemma successes_append: "successes (xs @ ys) = successes xs @ successes ys"
  by (induction xs rule: successes.induct) simp_all

lemma length_successes_failures: "length (successes os) + failures os = length os"
  by (induction os rule: successes.induct) (simp_all add: failures_def)

lemma report_progress_ok: "callbacks_ok A \<Longrightarrow> fst (report_progress A sh) = None"
  by (simp add: report_progress_def callbacks_ok_def split: option.splits)

lemma report_progress_fields:
  "successCount (snd (report_progress A sh)) = successCount sh"
  "failCount (snd (report_progress A sh)) = failCount sh"
  "results (snd (report_progress A sh)) = results sh"
  "batchCalls (snd (report_progress A sh)) = batchCalls sh"
  "rejection (snd (report_progress A sh)) = rejection sh"
  by (simp_all add: report_progress_def split: option.splits)

lemma next_item_fields:
  "successCount (snd (next_item A t sh)) = successCount sh"
  "failCount (snd (next_item A t sh)) = failCount sh"
  "results (snd (next_item A t sh)) = results sh"
  "rejection (snd (next_item A t sh)) = rejection sh"
  "pageIndex (fst (next_item A t sh)) = pageIndex t"
  by (simp_all add: next_item_def split: list.splits option.splits)

lemma next_item_todo:
  "todo_succ A (fst (next_item A t sh)) = length (successes (rest_outs A t))"
  "todo_fail A (fst (next_item A t sh)) = failures (rest_outs A t)"
  "todo_results A (fst (next_item A t sh)) = mset (successes (rest_outs A t))"
  by (simp_all add: next_item_def todo_succ_def todo_fail_def todo_results_def rest_outs_def
      chunk_outcomes_def failures_def split: list.splits option.splits)

lemma next_item_not_rejected:
  "(\<forall>e. pc (fst (next_item A t sh)) \<noteq> Rejected e)"
  by (simp add: next_item_def split: list.splits option.splits)

lemma catch_block_ok:
  assumes "callbacks_ok A"
  shows "catch_block A t sh
           = next_item A t (snd (report_progress A (sh\<lparr>failCount := failCount sh + 1\<rparr>)))"
  using report_progress_ok[OF assms, of "sh\<lparr>failCount := failCount sh + 1\<rparr>"]
  by (cases "report_progress A (sh\<lparr>failCount := failCount sh + 1\<rparr>)")
     (simp add: catch_block_def)

lemma count_success_ok:
  assumes "callbacks_ok A"
  shows "count_success A t sh
           = next_item A t (snd (report_progress A (sh\<lparr>successCount := successCount sh + 1\<rparr>)))"
  using report_progress_ok[OF assms, of "sh\<lparr>successCount := successCount sh + 1\<rparr>"]
  by (cases "report_progress A (sh\<lparr>successCount := successCount sh + 1\<rparr>)")
     (simp add: count_success_def)

lemma rest_outs_upd [simp]:
  "rest_outs A (t\<lparr>localBatch := lb\<rparr>) = rest_outs A t"
  "rest_outs A (t\<lparr>pc := p\<rparr>) = rest_outs A t"
  by (simp_all add: rest_outs_def)


lemma todo_pc_upd:
  "todo_succ A (t\<lparr>pc := X\<rparr>)
     = (case X of AwaitItem p \<Rightarrow> length (successes (p # rest_outs A t))
        | AwaitBatch q \<Rightarrow> Suc (length (successes (rest_outs A t))) | _ \<Rightarrow> 0)"
  "todo_fail A (t\<lparr>pc := X\<rparr>)
     = (case X of AwaitItem p \<Rightarrow> failures (p # rest_outs A t)
        | AwaitBatch q \<Rightarrow> failures (rest_outs A t) | _ \<Rightarrow> 0)"
  "todo_results A (t\<lparr>pc := X\<rparr>)
     = (case X of AwaitItem p \<Rightarrow> mset (successes (p # rest_outs A t))
        | AwaitBatch q \<Rightarrow> mset (successes (rest_outs A t)) | _ \<Rightarrow> {#})"
  by (simp_all add: todo_succ_def todo_fail_def todo_results_def split: pc.splits)

definition sound_pc :: "('a, 'r, 'e) task \<Rightarrow> bool" where
  "sound_pc t =
     (case pc t of
        AwaitBatch q \<Rightarrow> q = None
      | AwaitFinal q \<Rightarrow> q = None
      | Rejected e \<Rightarrow> False
      | _ \<Rightarrow> True)"

lemma sound_pc_upd:
  "sound_pc (t\<lparr>pc := X\<rparr>)
     = (case X of AwaitBatch q \<Rightarrow> q = None | AwaitFinal q \<Rightarrow> q = None
        | Rejected e \<Rightarrow> False | _ \<Rightarrow> True)"
  by (simp add: sound_pc_def)

lemma next_item_sound: "callbacks_ok A \<Longrightarrow> sound_pc (fst (next_item A t sh))"
  by (simp add: next_item_def sound_pc_def callbacks_ok_def split: list.splits option.splits)

definition ledger_kept ::
  "('pg, 'a, 'r, 'e) args \<Rightarrow> ('a, 'r, 'e) task \<Rightarrow> ('r, 'e) shared
     \<Rightarrow> ('a, 'r, 'e) task \<times> ('r, 'e) shared \<Rightarrow> bool" where
  "ledger_kept A t sh n =
     (successCount (snd n) + todo_succ A (fst n) = successCount sh + todo_succ A t \<and>
      failCount (snd n) + todo_fail A (fst n) = failCount sh + todo_fail A t \<and>
      mset (results (snd n)) + todo_results A (fst n) = mset (results sh) + todo_results A t \<and>
      rejection (snd n) = rejection sh \<and>
      sound_pc (fst n) \<and>
      pageIndex (fst n) = pageIndex t)"

lemma resume_ledger:
  assumes ok: "callbacks_ok A" and nr: "sound_pc t"
  shows "ledger_kept A t sh (resume A t sh)"
proof -
  note cb = catch_block_ok[OF ok] count_success_ok[OF ok]
  note td = todo_succ_def[of A t] todo_fail_def[of A t] todo_results_def[of A t]
  note simps = ledger_kept_def resume_def cb next_item_fields next_item_todo
    report_progress_fields td todo_pc_upd failures_def next_item_sound[OF ok]
  show ?thesis
  proof (cases "pc t")
    case (AwaitItem p)
    show ?thesis
    proof (cases p)
      case (Inl e)
      with AwaitItem show ?thesis by (simp add: simps)
    next
      case (Inr r)
      show ?thesis
      proof (cases "onBatchComplete A")
        case None
        with AwaitItem Inr show ?thesis by (simp add: simps Let_def)
      next
        case (Some f)
        then have "f (localBatch t @ [r]) = None" using ok by (simp add: callbacks_ok_def)
        with Some AwaitItem Inr show ?thesis by (simp add: simps Let_def sound_pc_upd)
      qed
    qed
  next
    case (AwaitBatch q)
    then have "q = None" using nr by (simp add: sound_pc_def)
    with AwaitBatch show ?thesis by (simp add: simps)
  next
    case (AwaitFinal q)
    then have "q = None" using nr by (simp add: sound_pc_def)
    with AwaitFinal show ?thesis by (simp add: simps sound_pc_upd)
  next
    case Finished
    then show ?thesis using nr by (simp add: simps)
  next
    case (Rejected e)
    then show ?thesis using nr by (simp add: sound_pc_def)
  qed
qed


subsection \<open>The ledger is kept by every interleaving\<close>

definition ledger ::
  "('pg, 'a, 'r, 'e) args \<Rightarrow> ('a, 'r, 'e) task list \<times> ('r, 'e) shared
     \<Rightarrow> nat \<times> nat \<times> 'r multiset" where
  "ledger A st =
     (successCount (snd st) + sum_list (map (todo_succ A) (fst st)),
      failCount (snd st) + sum_list (map (todo_fail A) (fst st)),
      mset (results (snd st)) + sum_list (map (todo_results A) (fst st)))"

definition all_sound :: "('a, 'r, 'e) task list \<times> ('r, 'e) shared \<Rightarrow> bool" where
  "all_sound st = (rejection (snd st) = None \<and> list_all sound_pc (fst st))"

lemma note_rejection_sound: "sound_pc t \<Longrightarrow> note_rejection t sh = sh"
  by (simp add: note_rejection_def sound_pc_def split: pc.splits)

lemma list_all_update: "list_all P xs \<Longrightarrow> P y \<Longrightarrow> list_all P (xs[j := y])"
  by (induction xs arbitrary: j) (auto split: nat.splits)

lemma step_ledger:
  assumes ok: "callbacks_ok A" and snd: "all_sound st" and j: "j < length (fst st)"
  shows "ledger A (step A j st) = ledger A st" and "all_sound (step A j st)"
proof -
  let ?t = "fst st ! j"
  obtain t' sh' where r: "resume A ?t (snd st) = (t', sh')"
    by (cases "resume A ?t (snd st)")
  have st: "sound_pc ?t" using snd j by (simp add: all_sound_def list_all_length)
  from resume_ledger[OF ok st, of "snd st"] r
  have k: "successCount sh' + todo_succ A t' = successCount (snd st) + todo_succ A ?t"
       "failCount sh' + todo_fail A t' = failCount (snd st) + todo_fail A ?t"
       "mset (results sh') + todo_results A t' = mset (results (snd st)) + todo_results A ?t"
       "rejection sh' = rejection (snd st)" "sound_pc t'"
    by (simp_all add: ledger_kept_def)
  have s: "step A j st = ((fst st)[j := t'], sh')"
    using r k(5) by (simp add: step_def note_rejection_sound)
  have u1: "sum_list (map (todo_succ A) ((fst st)[j := t'])) + todo_succ A ?t
              = sum_list (map (todo_succ A) (fst st)) + todo_succ A t'"
    by (rule sum_list_map_update[OF j])
  have u2: "sum_list (map (todo_fail A) ((fst st)[j := t'])) + todo_fail A ?t
              = sum_list (map (todo_fail A) (fst st)) + todo_fail A t'"
    by (rule sum_list_map_update[OF j])
  have u3: "sum_list (map (todo_results A) ((fst st)[j := t'])) + todo_results A ?t
              = sum_list (map (todo_results A) (fst st)) + todo_results A t'"
    by (rule sum_list_map_update[OF j])
  have a1: "successCount sh' + sum_list (map (todo_succ A) ((fst st)[j := t']))
              = successCount (snd st) + sum_list (map (todo_succ A) (fst st))"
    using k(1) u1 by linarith
  have a2: "failCount sh' + sum_list (map (todo_fail A) ((fst st)[j := t']))
              = failCount (snd st) + sum_list (map (todo_fail A) (fst st))"
    using k(2) u2 by linarith
  have "(mset (results sh') + sum_list (map (todo_results A) ((fst st)[j := t'])))
            + todo_results A ?t
          = (mset (results (snd st)) + sum_list (map (todo_results A) (fst st)))
            + todo_results A ?t"
    using k(3) u3 by (metis (no_types, lifting) add.assoc add.commute)
  then have a3: "mset (results sh') + sum_list (map (todo_results A) ((fst st)[j := t']))
              = mset (results (snd st)) + sum_list (map (todo_results A) (fst st))"
    by simp
  show "ledger A (step A j st) = ledger A st"
    using a1 a2 a3 by (simp add: ledger_def s)
  show "all_sound (step A j st)"
    using snd k(4) k(5) by (simp add: all_sound_def s list_all_update)
qed

lemma run_ledger:
  "callbacks_ok A \<Longrightarrow> all_sound st
     \<Longrightarrow> ledger A (run A sched st) = ledger A st \<and> all_sound (run A sched st)"
proof (induction A sched st rule: run.induct)
  case (1 A sched st)
  note ok = "1.prems"(1) and snd = "1.prems"(2)
  show ?case
  proof (cases "pick sched (fst st)")
    case None
    then show ?thesis using snd by (subst run.simps, subst run.simps) simp
  next
    case (Some j)
    have j: "j < length (fst st)" using pick_unsettled(1)[OF Some] .
    have l: "ledger A (step A j st) = ledger A st"
      by (rule step_ledger(1)[OF ok snd j])
    have s: "all_sound (step A j st)"
      by (rule step_ledger(2)[OF ok snd j])
    have r: "run A sched st = run A (tl sched) (step A j st)"
      using Some by (subst run.simps) simp
    from "1.IH"[OF Some ok s] l r show ?thesis by simp
  qed
qed

lemma run_settled: "list_all settled (fst (run A sched st))"
proof (induction A sched st rule: run.induct)
  case (1 A sched st)
  show ?case
  proof (cases "pick sched (fst st)")
    case None
    then have "unsettled (fst st) = []" by (simp add: pick_def split: list.splits)
    then have "list_all settled (fst st)"
      by (auto simp: unsettled_def filter_empty_conv list_all_length)
    then show ?thesis using None by (subst run.simps) simp
  next
    case (Some j)
    then have "run A sched st = run A (tl sched) (step A j st)" by (subst run.simps) simp
    with "1.IH"[OF Some] show ?thesis by simp
  qed
qed


subsection \<open>The start of the tasks\<close>

definition initial_shared :: "('r, 'e) shared" where
  "initial_shared = \<lparr>successCount = 0, failCount = 0, results = [],
                      batchCalls = [], progressCalls = [], rejection = None\<rparr>"

definition first_task :: "('pg, 'a, 'r, 'e) args \<Rightarrow> 'a list \<times> nat \<Rightarrow> ('a, 'r, 'e) task" where
  "first_task A cj =
     (case fst cj of
        [] \<Rightarrow> \<lparr>pageIndex = snd cj, remaining = [], localBatch = [], pc = Finished\<rparr>
      | x # xs \<Rightarrow>
          \<lparr>pageIndex = snd cj, remaining = xs, localBatch = [],
           pc = AwaitItem (processItemFn A (page_at (pages A) (snd cj)) x)\<rparr>)"

definition item_outcomes :: "('pg, 'a, 'r, 'e) args \<Rightarrow> ('e + 'r) list" where
  "item_outcomes A =
     (case splitIntoChunks (items A) (length (pages A)) of
        None \<Rightarrow> []
      | Some chunks \<Rightarrow>
          concat (map (\<lambda>(chunk, j). chunk_outcomes A j chunk) (zip chunks [0..<length chunks])))"

lemma next_item_first:
  "next_item A \<lparr>pageIndex = j, remaining = chunk, localBatch = [], pc = Finished\<rparr> sh
     = (first_task A (chunk, j), sh)"
  by (simp add: next_item_def first_task_def split: list.splits option.splits)

lemma first_task_sound: "sound_pc (first_task A cj)"
  by (simp add: first_task_def sound_pc_def split: list.splits)

lemma first_task_todo:
  "todo_succ A (first_task A (chunk, j)) = length (successes (chunk_outcomes A j chunk))"
  "todo_fail A (first_task A (chunk, j)) = failures (chunk_outcomes A j chunk)"
  "todo_results A (first_task A (chunk, j)) = mset (successes (chunk_outcomes A j chunk))"
  by (simp_all add: first_task_def todo_succ_def todo_fail_def todo_results_def rest_outs_def
      chunk_outcomes_def failures_def split: list.splits)

lemma foldl_first_tasks:
  "foldl (\<lambda>st cj. (fst st @ [first_task A cj], snd st)) (ts, sh0) zs
     = (ts @ map (first_task A) zs, sh0)"
  by (induction zs arbitrary: ts) simp_all

lemma start_foldl:
  "foldl (\<lambda>st (chunk, j).
            case next_item A \<lparr>pageIndex = j, remaining = chunk, localBatch = [], pc = Finished\<rparr>
                   (snd st) of
              (t, sh) \<Rightarrow> (fst st @ [t], note_rejection t sh))
     (ts, sh0) zs
   = (ts @ map (first_task A) zs, sh0)"
  by (simp add: next_item_first note_rejection_sound[OF first_task_sound] foldl_first_tasks
      split_def)

lemma start_eq:
  "start A chunks = (map (first_task A) (zip chunks [0..<length chunks]), initial_shared)"
  unfolding start_def initial_shared_def[symmetric]
  by (simp add: start_foldl)

lemma sum_first_tasks:
  "sum_list (map (todo_succ A) (map (first_task A) zs))
     = length (successes (concat (map (\<lambda>(chunk, j). chunk_outcomes A j chunk) zs)))"
  "sum_list (map (todo_fail A) (map (first_task A) zs))
     = failures (concat (map (\<lambda>(chunk, j). chunk_outcomes A j chunk) zs))"
  "sum_list (map (todo_results A) (map (first_task A) zs))
     = mset (successes (concat (map (\<lambda>(chunk, j). chunk_outcomes A j chunk) zs)))"
  by (induction zs; simp add: first_task_todo successes_append failures_def split: prod.splits)+

lemma finished_todo:
  assumes "settled t" "sound_pc t"
  shows "todo_succ A t = 0" "todo_fail A t = 0" "todo_results A t = {#}"
  using assms
  by (simp_all add: settled_def sound_pc_def todo_succ_def todo_fail_def todo_results_def
      split: pc.splits)

lemma sum_list_all_zero:
  fixes f :: "'b \<Rightarrow> 'c::comm_monoid_add"
  shows "list_all (\<lambda>x. f x = 0) xs \<Longrightarrow> sum_list (map f xs) = 0"
  by (induction xs) simp_all

lemma ledger_settled:
  assumes "list_all settled (fst st)" "all_sound st"
  shows "ledger A st = (successCount (snd st), failCount (snd st), mset (results (snd st)))"
proof -
  have "list_all (\<lambda>t. settled t \<and> sound_pc t) (fst st)"
    using assms by (simp add: all_sound_def list_all_iff)
  then have "list_all (\<lambda>t. todo_succ A t = 0) (fst st)"
    "list_all (\<lambda>t. todo_fail A t = 0) (fst st)"
    "list_all (\<lambda>t. todo_results A t = 0) (fst st)"
    by (auto simp: list_all_iff finished_todo)
  then show ?thesis by (simp add: ledger_def sum_list_all_zero)
qed

lemma run_report:
  assumes ok: "callbacks_ok A"
    and sp: "splitIntoChunks (items A) (length (pages A)) = Some chunks"
  shows "\<exists>tasks sh. processItemsInParallel_run A sched = Some (tasks, sh)
           \<and> rejection sh = None
           \<and> successCount sh = length (successes (item_outcomes A))
           \<and> failCount sh = failures (item_outcomes A)
           \<and> mset (results sh) = mset (successes (item_outcomes A))"
proof -
  let ?ini = "start A chunks"
  let ?fin = "run A sched ?ini"
  have s0: "all_sound ?ini"
    by (simp add: start_eq all_sound_def initial_shared_def list_all_iff first_task_sound)
  have l0: "ledger A ?ini = (length (successes (item_outcomes A)), failures (item_outcomes A),
      mset (successes (item_outcomes A)))"
    by (simp add: ledger_def start_eq initial_shared_def sum_first_tasks item_outcomes_def sp
        del: map_map)
  have k: "ledger A ?fin = ledger A ?ini"
    using run_ledger[OF ok s0, of sched] by (rule conjunct1)
  have s: "all_sound ?fin"
    using run_ledger[OF ok s0, of sched] by (rule conjunct2)
  have "ledger A ?fin = (successCount (snd ?fin), failCount (snd ?fin), mset (results (snd ?fin)))"
    by (rule ledger_settled[OF run_settled s])
  with k l0 have "successCount (snd ?fin) = length (successes (item_outcomes A))"
    "failCount (snd ?fin) = failures (item_outcomes A)"
    "mset (results (snd ?fin)) = mset (successes (item_outcomes A))"
    by simp_all
  moreover have "rejection (snd ?fin) = None" using s by (simp add: all_sound_def)
  moreover have "processItemsInParallel_run A sched = Some (fst ?fin, snd ?fin)"
    by (simp add: processItemsInParallel_run_def sp)
  ultimately show ?thesis by blast
qed


subsection \<open>Batches flushed by one chunk\<close>

fun flushes :: "nat \<Rightarrow> 'r list \<Rightarrow> 'r list \<Rightarrow> 'r list list" where
  "flushes bs lb [] = (if lb = [] then [] else [lb])"
| "flushes bs lb (r # rs) =
     (if bs \<le> length (lb @ [r]) then (lb @ [r]) # flushes bs [] rs
      else flushes bs (lb @ [r]) rs)"

definition chunk_calls :: "nat \<Rightarrow> (nat \<times> 'r list) list \<Rightarrow> 'r list list" where
  "chunk_calls j cs = map snd (filter (\<lambda>c. fst c = j) cs)"

definition future_flushes :: "('pg, 'a, 'r, 'e) args \<Rightarrow> ('a, 'r, 'e) task \<Rightarrow> 'r list list" where
  "future_flushes A t =
     (case pc t of
        AwaitItem p \<Rightarrow> flushes (batchSize A) (localBatch t) (successes (p # rest_outs A t))
      | AwaitBatch q \<Rightarrow> flushes (batchSize A) [] (successes (rest_outs A t))
      | _ \<Rightarrow> [])"

lemma flushes_chunksOf:
  "0 < bs \<Longrightarrow> length lb < bs \<Longrightarrow> flushes bs lb rs = chunksOf bs (lb @ rs)"
proof (induction rs arbitrary: lb)
  case Nil
  then show ?case by (cases lb) (simp_all add: chunksOf.simps[of bs])
next
  case (Cons r rs)
  show ?case
  proof (cases "bs \<le> length (lb @ [r])")
    case True
    then have l: "length (lb @ [r]) = bs" using Cons.prems by simp
    have "chunksOf bs (lb @ r # rs) = take bs (lb @ r # rs) # chunksOf bs (drop bs (lb @ r # rs))"
      using Cons.prems by (subst chunksOf.simps) simp
    moreover have d: "bs - length lb = Suc 0" using l by simp
    moreover have "take bs (lb @ r # rs) = lb @ [r]" using l d by simp
    moreover have "drop bs (lb @ r # rs) = rs" using l d by simp
    moreover have "flushes bs [] rs = chunksOf bs ([] @ rs)" using Cons.IH[of "[]"] Cons.prems by simp
    ultimately show ?thesis using True by simp
  next
    case False
    then have "length (lb @ [r]) < bs" by simp
    from Cons.IH[OF Cons.prems(1) this] False show ?thesis by simp
  qed
qed

lemma chunk_calls_append [simp]:
  "chunk_calls j (cs @ ds) = chunk_calls j cs @ chunk_calls j ds"
  by (simp add: chunk_calls_def)

lemma chunk_calls_Nil [simp]: "chunk_calls j [] = []"
  by (simp add: chunk_calls_def)

lemma chunk_calls_single [simp]:
  "chunk_calls j [(i, b)] = (if i = j then [b] else [])"
  by (simp add: chunk_calls_def)

lemma future_pc_upd:
  "future_flushes A (t\<lparr>pc := X\<rparr>)
     = (case X of
          AwaitItem p \<Rightarrow> flushes (batchSize A) (localBatch t) (successes (p # rest_outs A t))
        | AwaitBatch q \<Rightarrow> flushes (batchSize A) [] (successes (rest_outs A t))
        | _ \<Rightarrow> [])"
  by (simp add: future_flushes_def split: pc.splits)

lemma next_item_calls:
  assumes "onBatchComplete A = Some f"
  shows "j = pageIndex t
         \<Longrightarrow> chunk_calls j (batchCalls (snd (next_item A t sh)))
               @ future_flushes A (fst (next_item A t sh))
             = chunk_calls j (batchCalls sh)
               @ flushes (batchSize A) (localBatch t) (successes (rest_outs A t))"
    and "i \<noteq> pageIndex t
         \<Longrightarrow> chunk_calls i (batchCalls (snd (next_item A t sh))) = chunk_calls i (batchCalls sh)"
  using assms
  by (simp_all add: next_item_def future_flushes_def rest_outs_def chunk_outcomes_def
      split: list.splits)

definition calls_kept ::
  "('pg, 'a, 'r, 'e) args \<Rightarrow> ('a, 'r, 'e) task \<Rightarrow> ('r, 'e) shared
     \<Rightarrow> ('a, 'r, 'e) task \<times> ('r, 'e) shared \<Rightarrow> bool" where
  "calls_kept A t sh n =
     (chunk_calls (pageIndex t) (batchCalls (snd n)) @ future_flushes A (fst n)
        = chunk_calls (pageIndex t) (batchCalls sh) @ future_flushes A t \<and>
      (\<forall>i. i \<noteq> pageIndex t
         \<longrightarrow> chunk_calls i (batchCalls (snd n)) = chunk_calls i (batchCalls sh)))"

lemma resume_calls:
  assumes ok: "callbacks_ok A" and f: "onBatchComplete A = Some f" and nr: "sound_pc t"
  shows "calls_kept A t sh (resume A t sh)"
proof -
  note cb = catch_block_ok[OF ok] count_success_ok[OF ok]
  note ni = next_item_calls[OF f]
  note simps = calls_kept_def resume_def cb ni report_progress_fields
    future_flushes_def[of A t] future_pc_upd
  show ?thesis
  proof (cases "pc t")
    case (AwaitItem p)
    show ?thesis
    proof (cases p)
      case (Inl e)
      with AwaitItem show ?thesis by (simp add: simps)
    next
      case (Inr r)
      with AwaitItem f show ?thesis by (simp add: simps Let_def)
    qed
  next
    case (AwaitBatch q)
    then have "q = None" using nr by (simp add: sound_pc_def)
    with AwaitBatch show ?thesis by (simp add: simps)
  next
    case (AwaitFinal q)
    then have "q = None" using nr by (simp add: sound_pc_def)
    with AwaitFinal show ?thesis by (simp add: simps)
  next
    case Finished
    then show ?thesis by (simp add: simps)
  next
    case (Rejected e)
    then show ?thesis using nr by (simp add: sound_pc_def)
  qed
qed


definition flush_inv ::
  "('pg, 'a, 'r, 'e) args \<Rightarrow> (nat \<Rightarrow> 'r list list)
     \<Rightarrow> ('a, 'r, 'e) task list \<times> ('r, 'e) shared \<Rightarrow> bool" where
  "flush_inv A target st =
     (\<forall>j < length (fst st).
        pageIndex (fst st ! j) = j \<and>
        chunk_calls j (batchCalls (snd st)) @ future_flushes A (fst st ! j) = target j)"

lemma step_flush_inv:
  assumes ok: "callbacks_ok A" and f: "onBatchComplete A = Some f"
    and snd: "all_sound st" and inv: "flush_inv A target st" and j: "j < length (fst st)"
  shows "flush_inv A target (step A j st)"
proof -
  let ?t = "fst st ! j"
  obtain t' sh' where r: "resume A ?t (snd st) = (t', sh')"
    by (cases "resume A ?t (snd st)")
  have st: "sound_pc ?t" using snd j by (simp add: all_sound_def list_all_length)
  have pj: "pageIndex ?t = j" using inv j by (simp add: flush_inv_def)
  from resume_ledger[OF ok st, of "snd st"] r
  have k: "sound_pc t'" "pageIndex t' = j"
    by (simp_all add: ledger_kept_def pj)
  from resume_calls[OF ok f st, of "snd st"] r pj
  have c1: "chunk_calls j (batchCalls sh') @ future_flushes A t'
              = chunk_calls j (batchCalls (snd st)) @ future_flushes A ?t"
    and c2: "\<And>i. i \<noteq> j \<Longrightarrow> chunk_calls i (batchCalls sh') = chunk_calls i (batchCalls (snd st))"
    by (simp_all add: calls_kept_def)
  have s: "step A j st = ((fst st)[j := t'], sh')"
    using r k(1) by (simp add: step_def note_rejection_sound)
  show ?thesis
    unfolding flush_inv_def s
  proof (intro allI impI)
    fix i assume "i < length (fst ((fst st)[j := t'], sh'))"
    then have i: "i < length (fst st)" by simp
    show "pageIndex (fst ((fst st)[j := t'], sh') ! i) = i \<and>
          chunk_calls i (batchCalls (snd ((fst st)[j := t'], sh')))
            @ future_flushes A (fst ((fst st)[j := t'], sh') ! i) = target i"
    proof (cases "i = j")
      case True
      then show ?thesis using inv j k(2) c1 by (simp add: flush_inv_def)
    next
      case False
      then show ?thesis using inv i c2[OF False] by (simp add: flush_inv_def)
    qed
  qed
qed

lemma step_length: "length (fst (step A j st)) = length (fst st)"
  by (simp add: step_def split: prod.splits)

lemma run_length: "length (fst (run A sched st)) = length (fst st)"
proof (induction A sched st rule: run.induct)
  case (1 A sched st)
  show ?case
  proof (cases "pick sched (fst st)")
    case None
    then show ?thesis by (subst run.simps) simp
  next
    case (Some j)
    then have "run A sched st = run A (tl sched) (step A j st)" by (subst run.simps) simp
    with "1.IH"[OF Some] show ?thesis by (simp add: step_length)
  qed
qed

lemma settled_future: "settled t \<Longrightarrow> future_flushes A t = []"
  by (simp add: settled_def future_flushes_def split: pc.splits)

lemma first_task_future:
  "future_flushes A (first_task A (chunk, j))
     = flushes (batchSize A) [] (successes (chunk_outcomes A j chunk))"
  "pageIndex (first_task A (chunk, j)) = j"
  by (simp_all add: first_task_def future_flushes_def rest_outs_def chunk_outcomes_def
      split: list.splits)

lemma next_item_indices:
  "fst ` set (batchCalls (snd (next_item A t sh)))
     \<subseteq> insert (pageIndex t) (fst ` set (batchCalls sh))"
  by (auto simp: next_item_def split: list.splits option.splits if_splits)

lemma resume_indices:
  assumes ok: "callbacks_ok A" and nr: "sound_pc t"
  shows "fst ` set (batchCalls (snd (resume A t sh)))
           \<subseteq> insert (pageIndex t) (fst ` set (batchCalls sh))"
proof -
  note cb = catch_block_ok[OF ok] count_success_ok[OF ok]
  have ni: "fst ` set (batchCalls (snd (next_item A u (snd (report_progress A s)))))
              \<subseteq> insert (pageIndex u) (fst ` set (batchCalls s))" for u s
    using next_item_indices[of A u "snd (report_progress A s)"]
    by (simp add: report_progress_fields)
  show ?thesis
  proof (cases "pc t")
    case (AwaitItem p)
    show ?thesis
    proof (cases p)
      case (Inl e)
      with AwaitItem show ?thesis
        using ni[of t "sh\<lparr>failCount := failCount sh + 1\<rparr>"] by (simp add: resume_def cb)
    next
      case (Inr r)
      show ?thesis
        using AwaitItem Inr
          ni[of "t\<lparr>localBatch := localBatch t @ [r]\<rparr>"
                "sh\<lparr>results := results sh @ [r],
                    successCount := successCount (sh\<lparr>results := results sh @ [r]\<rparr>) + 1\<rparr>"]
        by (auto simp: resume_def cb Let_def split: option.splits)
    qed
  next
    case (AwaitBatch q)
    then have "q = None" using nr by (simp add: sound_pc_def)
    with AwaitBatch show ?thesis
      using ni[of "t\<lparr>localBatch := []\<rparr>" "sh\<lparr>successCount := successCount sh + 1\<rparr>"]
      by (simp add: resume_def cb)
  next
    case (AwaitFinal q)
    then show ?thesis by (auto simp: resume_def split: option.splits)
  next
    case Finished
    then show ?thesis by (auto simp: resume_def)
  next
    case (Rejected e)
    then show ?thesis by (auto simp: resume_def)
  qed
qed

definition indexed :: "('a, 'r, 'e) task list \<times> ('r, 'e) shared \<Rightarrow> bool" where
  "indexed st = (fst ` set (batchCalls (snd st)) \<subseteq> {..<length (fst st)})"

lemma step_indexed:
  assumes ok: "callbacks_ok A" and snd: "all_sound st" and inv: "flush_inv A target st"
    and ix: "indexed st" and j: "j < length (fst st)"
  shows "indexed (step A j st)"
proof -
  let ?t = "fst st ! j"
  obtain t' sh' where r: "resume A ?t (snd st) = (t', sh')"
    by (cases "resume A ?t (snd st)")
  have st: "sound_pc ?t" using snd j by (simp add: all_sound_def list_all_length)
  have pj: "pageIndex ?t = j" using inv j by (simp add: flush_inv_def)
  from resume_ledger[OF ok st, of "snd st"] r have k: "sound_pc t'"
    by (simp add: ledger_kept_def)
  have s: "step A j st = ((fst st)[j := t'], sh')"
    using r k by (simp add: step_def note_rejection_sound)
  from resume_indices[OF ok st, of "snd st"] r pj
  have "fst ` set (batchCalls sh') \<subseteq> insert j (fst ` set (batchCalls (snd st)))" by simp
  then show ?thesis using ix j by (auto simp: indexed_def s)
qed

lemma run_inv:
  "callbacks_ok A \<Longrightarrow> onBatchComplete A = Some f \<Longrightarrow> all_sound st \<Longrightarrow> flush_inv A target st
     \<Longrightarrow> indexed st
     \<Longrightarrow> flush_inv A target (run A sched st) \<and> indexed (run A sched st)"
proof (induction A sched st rule: run.induct)
  case (1 A sched st)
  note ok = "1.prems"(1) and f = "1.prems"(2) and snd = "1.prems"(3) and inv = "1.prems"(4)
    and ix = "1.prems"(5)
  show ?case
  proof (cases "pick sched (fst st)")
    case None
    then show ?thesis using inv ix by (subst run.simps, subst run.simps) simp
  next
    case (Some j)
    have j: "j < length (fst st)" using pick_unsettled(1)[OF Some] .
    have s: "all_sound (step A j st)"
      by (rule step_ledger(2)[OF ok snd j])
    have i: "flush_inv A target (step A j st)"
      by (rule step_flush_inv[OF ok f snd inv j])
    have x: "indexed (step A j st)"
      by (rule step_indexed[OF ok snd inv ix j])
    have r: "run A sched st = run A (tl sched) (step A j st)"
      using Some by (subst run.simps) simp
    from "1.IH"[OF Some ok f s i x] r show ?thesis by simp
  qed
qed

lemma run_flushes:
  assumes ok: "callbacks_ok A" and f: "onBatchComplete A = Some f"
    and sp: "splitIntoChunks (items A) (length (pages A)) = Some chunks"
  shows "processItemsInParallel_run A sched = Some (run A sched (start A chunks))"
    and "j < length chunks
         \<Longrightarrow> chunk_calls j (batchCalls (snd (run A sched (start A chunks))))
             = flushes (batchSize A) [] (successes (chunk_outcomes A j (chunks ! j)))"
    and "fst ` set (batchCalls (snd (run A sched (start A chunks)))) \<subseteq> {..<length chunks}"
proof -
  let ?ini = "start A chunks"
  let ?fin = "run A sched ?ini"
  let ?target = "\<lambda>j. flushes (batchSize A) [] (successes (chunk_outcomes A j (chunks ! j)))"
  have s0: "all_sound ?ini"
    by (simp add: start_eq all_sound_def initial_shared_def list_all_iff first_task_sound)
  have i0: "flush_inv A ?target ?ini"
    by (simp add: flush_inv_def start_eq initial_shared_def first_task_future)
  have x0: "indexed ?ini" by (simp add: indexed_def start_eq initial_shared_def)
  have inv: "flush_inv A ?target ?fin" and ix: "indexed ?fin"
    using run_inv[OF ok f s0 i0 x0, of sched] by blast+
  have len: "length (fst ?fin) = length chunks" by (simp add: run_length start_eq)
  show "processItemsInParallel_run A sched = Some ?fin"
    by (simp add: processItemsInParallel_run_def sp)
  show "fst ` set (batchCalls (snd ?fin)) \<subseteq> {..<length chunks}"
    using ix len by (simp add: indexed_def)
  show "chunk_calls j (batchCalls (snd ?fin)) = ?target j" if j: "j < length chunks"
  proof -
    have "settled (fst ?fin ! j)"
      using run_settled[of A sched ?ini] j len by (simp add: list_all_length)
    then have e: "future_flushes A (fst ?fin ! j) = []" by (rule settled_future)
    have "j < length (fst ?fin)" using j len by simp
    with inv have "chunk_calls j (batchCalls (snd ?fin)) @ future_flushes A (fst ?fin ! j)
        = ?target j"
      unfolding flush_inv_def by blast
    with e show ?thesis by simp
  qed
qed

lemma chunk_calls_all:
  "fst ` set cs \<subseteq> {j} \<Longrightarrow> chunk_calls j cs = map snd cs"
  by (induction cs) (auto simp: chunk_calls_def)

lemma length_chunk_outcomes_concat:
  "length (concat (map (\<lambda>(chunk, j). chunk_outcomes A j chunk) zs))
     = length (concat (map fst zs))"
  by (induction zs) (simp_all add: chunk_outcomes_def split: prod.splits)

lemma ceil_div_pos: "0 < k \<Longrightarrow> 0 < n \<Longrightarrow> 0 < ceil_div n k"
  by (simp add: ceil_div_alt)

lemma splitIntoChunks_concat:
  assumes "1 \<le> k"
  shows "concat (chunksOf (ceil_div (length xs) k) xs) = xs"
proof (cases "xs = []")
  case True
  then show ?thesis by (simp add: chunksOf.simps)
next
  case False
  then have "0 < ceil_div (length xs) k" using assms by (simp add: ceil_div_pos)
  then show ?thesis by (rule concat_chunksOf)
qed

lemma length_item_outcomes:
  assumes "pages A \<noteq> []"
  shows "length (item_outcomes A) = length (items A)"
proof -
  let ?k = "length (pages A)"
  let ?chunks = "chunksOf (ceil_div (length (items A)) ?k) (items A)"
  have k: "1 \<le> ?k" using assms by (cases "pages A") simp_all
  have sp: "splitIntoChunks (items A) ?k = Some ?chunks" by (rule splitIntoChunks_chunksOf[OF k])
  have "concat ?chunks = items A" by (rule splitIntoChunks_concat[OF k])
  then show ?thesis
    by (simp add: item_outcomes_def sp length_chunk_outcomes_concat del: length_concat)
qed

lemma ex_outcomes:
  "item_outcomes \<lparr>pages = [p, q], items = [1, 2, 3, 4, 5, 6, 7, 8, 9, 10 :: nat],
       processItemFn = (\<lambda>pg x. if x = 3 \<or> x = 7 then Inl ''fail'' else Inr x),
       batchSize = 50, onBatchComplete = None, onProgress = None\<rparr>
   = [Inr 1, Inr 2, Inl ''fail'', Inr 4, Inr 5, Inr 6, Inl ''fail'', Inr 8, Inr 9, Inr 10]"
  by code_simp


subsection \<open>Claim C3\<close>

text \<open>
  C3 fails as stated: the \<open>try\<close> block of the loop also encloses the call of
  \<open>onBatchComplete\<close>, so a flush that throws is caught as if the item had failed. Here
  both \<open>processItem\<close> calls succeed and the first flush throws: the call returns
  \<open>successCount = 1\<close>, \<open>failCount = 1\<close> and two results.
\<close>

theorem processItemsInParallel_flush_failure_miscounted:
  "item_outcomes \<lparr>pages = [0 :: nat], items = [1, 2 :: nat],
       processItemFn = (\<lambda>pg x. Inr x), batchSize = 1,
       onBatchComplete = Some (\<lambda>b. if b = [1] then Some ''boom'' else None),
       onProgress = None\<rparr>
     = [Inr 1, Inr 2] \<and>
   processItemsInParallel \<lparr>pages = [0 :: nat], items = [1, 2 :: nat],
       processItemFn = (\<lambda>pg x. Inr x), batchSize = 1,
       onBatchComplete = Some (\<lambda>b. if b = [1] then Some ''boom'' else None),
       onProgress = None\<rparr> []
     = Some (Inr \<lparr>successCount = 1, failCount = 1, results = [1, 2]\<rparr>)"
  by code_simp

text \<open>
  C3 (as amended). For every non-empty pages array, every items array and every
  interleaving of the chunks, when neither callback throws (or they are absent),
  \<open>processItemsInParallel\<close> returns normally; \<open>successCount\<close> is the number of items whose
  \<open>processItem\<close> call succeeded, \<open>failCount\<close> the number of those whose call threw,
  \<open>results\<close> holds exactly the successful outputs (so \<open>results.length = successCount\<close>),
  and the two counts add up to the number of items: a failing item aborts neither its
  chunk nor the call. With 2 pages and 10 items of which the third and the seventh fail,
  the counts are 8 and 2, with 8 results.
\<close>

theorem processItemsInParallel_counts:
  assumes "pages A \<noteq> []" and "callbacks_ok A"
  shows "(\<exists>rep. processItemsInParallel A sched = Some (Inr rep)
            \<and> successCount rep = length (successes (item_outcomes A))
            \<and> failCount rep = failures (item_outcomes A)
            \<and> mset (results rep) = mset (successes (item_outcomes A))
            \<and> length (results rep) = successCount rep
            \<and> successCount rep + failCount rep = length (items A))
       \<and> (\<exists>rep. processItemsInParallel
              \<lparr>pages = [p, q], items = [1, 2, 3, 4, 5, 6, 7, 8, 9, 10 :: nat],
               processItemFn = (\<lambda>pg x. if x = 3 \<or> x = 7 then Inl ''fail'' else Inr x),
               batchSize = 50, onBatchComplete = None, onProgress = None\<rparr> sched'
              = Some (Inr rep)
            \<and> successCount rep = 8 \<and> failCount rep = 2 \<and> length (results rep) = 8)"
proof -
  have general: "\<exists>rep. processItemsInParallel B s = Some (Inr rep)
            \<and> successCount rep = length (successes (item_outcomes B))
            \<and> failCount rep = failures (item_outcomes B)
            \<and> mset (results rep) = mset (successes (item_outcomes B))
            \<and> length (results rep) = successCount rep
            \<and> successCount rep + failCount rep = length (items B)"
    if ne: "pages B \<noteq> []" and ok: "callbacks_ok B"
    for B :: "('x, 'y, 'z, 'w) args" and s
  proof -
    have k: "1 \<le> length (pages B)" using ne by (cases "pages B") simp_all
    from run_report[OF ok splitIntoChunks_chunksOf[OF k], of s]
    obtain tasks sh where r: "processItemsInParallel_run B s = Some (tasks, sh)"
      and rj: "rejection sh = None"
      and c1: "successCount sh = length (successes (item_outcomes B))"
      and c2: "failCount sh = failures (item_outcomes B)"
      and c3: "mset (results sh) = mset (successes (item_outcomes B))"
      by blast
    let ?rep = "\<lparr>successCount = successCount sh, failCount = failCount sh,
                  results = results sh\<rparr>"
    have p: "processItemsInParallel B s = Some (Inr ?rep)"
      using r rj by (simp add: processItemsInParallel_def)
    have "size (mset (results sh)) = size (mset (successes (item_outcomes B)))"
      using c3 by simp
    then have c4: "length (results sh) = successCount sh" using c1 by simp
    have c5: "successCount sh + failCount sh = length (items B)"
      using c1 c2 length_successes_failures[of "item_outcomes B"] length_item_outcomes[OF ne]
      by simp
    show ?thesis using p c1 c2 c3 c4 c5 by (intro exI[of _ ?rep]) simp
  qed
  let ?ex = "\<lparr>pages = [p, q], items = [1, 2, 3, 4, 5, 6, 7, 8, 9, 10 :: nat],
               processItemFn = (\<lambda>pg x. if x = 3 \<or> x = 7 then Inl ''fail'' else Inr x),
               batchSize = 50, onBatchComplete = None, onProgress = None\<rparr>"
  have "pages ?ex \<noteq> []" "callbacks_ok ?ex" by (simp_all add: callbacks_ok_def)
  from general[OF this, of sched']
  obtain rep where r: "processItemsInParallel ?ex sched' = Some (Inr rep)"
    and c1: "successCount rep = length (successes (item_outcomes ?ex))"
    and c2: "failCount rep = failures (item_outcomes ?ex)"
    and c4: "length (results rep) = successCount rep"
    by blast
  have s: "successCount rep = 8" unfolding c1 ex_outcomes by simp
  have f: "failCount rep = 2" unfolding c2 ex_outcomes by (simp add: failures_def)
  have l: "length (results rep) = 8" using c4 s by simp
  from r s f l
  have "\<exists>rep. processItemsInParallel ?ex sched' = Some (Inr rep)
            \<and> successCount rep = 8 \<and> failCount rep = 2 \<and> length (results rep) = 8"
    by blast
  with general[OF assms, of sched] show ?thesis by (intro conjI)
qed

theorem processItemsInParallel_counts_witness:
  "pages \<lparr>pages = [0 :: nat, 1], items = [1, 2, 3, 4, 5 :: nat],
          processItemFn = (\<lambda>pg x. if x = 2 then Inl ''fail'' else Inr (10 * x)),
          batchSize = 2, onBatchComplete = Some (\<lambda>b. None :: string option),
          onProgress = Some (\<lambda>c n. None)\<rparr> \<noteq> [] \<and>
   callbacks_ok \<lparr>pages = [0 :: nat, 1], items = [1, 2, 3, 4, 5 :: nat],
          processItemFn = (\<lambda>pg x. if x = 2 then Inl ''fail'' else Inr (10 * x)),
          batchSize = 2, onBatchComplete = Some (\<lambda>b. None :: string option),
          onProgress = Some (\<lambda>c n. None)\<rparr> \<and>
   (\<exists>rep. processItemsInParallel \<lparr>pages = [0 :: nat, 1], items = [1, 2, 3, 4, 5 :: nat],
          processItemFn = (\<lambda>pg x. if x = 2 then Inl ''fail'' else Inr (10 * x)),
          batchSize = 2, onBatchComplete = Some (\<lambda>b. None :: string option),
          onProgress = Some (\<lambda>c n. None)\<rparr> [1, 0, 1, 1, 0] = Some (Inr rep)
      \<and> successCount rep = 4 \<and> failCount rep = 1 \<and> length (results rep) = 4)"
proof -
  let ?A = "\<lparr>pages = [0 :: nat, 1], items = [1, 2, 3, 4, 5 :: nat],
          processItemFn = (\<lambda>pg x. if x = 2 then Inl ''fail'' else Inr (10 * x)),
          batchSize = 2, onBatchComplete = Some (\<lambda>b. None :: string option),
          onProgress = Some (\<lambda>c n. None)\<rparr>"
  have h1: "pages ?A \<noteq> []" by simp
  have h2: "callbacks_ok ?A" by (simp add: callbacks_ok_def)
  have o: "item_outcomes ?A = [Inr 10, Inl ''fail'', Inr 30, Inr 40, Inr 50]" by code_simp
  from processItemsInParallel_counts[OF h1 h2, of "[1, 0, 1, 1, 0]", THEN conjunct1]
  obtain rep where r: "processItemsInParallel ?A [1, 0, 1, 1, 0] = Some (Inr rep)"
    and c1: "successCount rep = length (successes (item_outcomes ?A))"
    and c2: "failCount rep = failures (item_outcomes ?A)"
    and c4: "length (results rep) = successCount rep"
    by blast
  have s: "successCount rep = 4" unfolding c1 o by simp
  have f: "failCount rep = 1" unfolding c2 o by (simp add: failures_def)
  have l: "length (results rep) = 4" using c4 s by simp
  from r s f l
  have "\<exists>rep. processItemsInParallel ?A [1, 0, 1, 1, 0] = Some (Inr rep)
      \<and> successCount rep = 4 \<and> failCount rep = 1 \<and> length (results rep) = 4"
    by blast
  with h1 h2 show ?thesis by (intro conjI)
qed


subsection \<open>Claim C4\<close>

text \<open>
  C4 fails as stated. With \<open>batchSize = 3\<close> and one chunk of 7 items that \<open>processItem\<close>
  all handles successfully, a callback that throws on the first flush (and on no other) is
  invoked 3 times, with batches of the sizes 3, 4 and 3, and not with the sizes 3, 3 and 1:
  in this run the batch is not reset after the first flush, and the call returns normally.
\<close>

theorem onBatchComplete_failed_flush_keeps_batch:
  "map_option (\<lambda>st. map snd (batchCalls (snd st)))
     (processItemsInParallel_run \<lparr>pages = [0 :: nat], items = [1, 2, 3, 4, 5, 6, 7 :: nat],
         processItemFn = (\<lambda>pg x. Inr x), batchSize = 3,
         onBatchComplete = Some (\<lambda>b. if b = [1, 2, 3] then Some ''boom'' else None),
         onProgress = None\<rparr> [])
     = Some [[1, 2, 3], [1, 2, 3, 4], [5, 6, 7]] \<and>
   processItemsInParallel \<lparr>pages = [0 :: nat], items = [1, 2, 3, 4, 5, 6, 7 :: nat],
         processItemFn = (\<lambda>pg x. Inr x), batchSize = 3,
         onBatchComplete = Some (\<lambda>b. if b = [1, 2, 3] then Some ''boom'' else None),
         onProgress = None\<rparr> []
     = Some (Inr \<lparr>successCount = 6, failCount = 1, results = [1, 2, 3, 4, 5, 6, 7]\<rparr>)"
  by code_simp

text \<open>
  C4 (as amended). For every \<open>batchSize \<ge> 1\<close>, when \<open>onBatchComplete\<close> is given and neither
  callback throws, within a single chunk of \<open>processItemsInParallel\<close> the callback receives
  a flush after every \<open>batchSize\<close> consecutive successful items (the local batch then
  resets) and one final flush of any non-empty leftover partial batch at chunk end; with
  \<open>batchSize = 3\<close> and one chunk of 7 successful items it is invoked exactly 3 times, with
  batches of the sizes 3, 3 and 1, in order.

  Formally, in every interleaving and for every chunk, the batches that the chunk passes
  to \<open>onBatchComplete\<close> are, in order, the successful results of the chunk cut into groups
  of \<open>batchSize\<close>, the last group holding the leftover; and every invocation comes from a
  chunk.
\<close>

theorem onBatchComplete_flush_boundaries:
  assumes "1 \<le> batchSize A" and "onBatchComplete A = Some f" and "callbacks_ok A"
    and "pages A \<noteq> []"
  shows "(\<exists>chunks st.
            splitIntoChunks (items A) (length (pages A)) = Some chunks
          \<and> processItemsInParallel_run A sched = Some st
          \<and> (\<forall>c \<in> set (batchCalls (snd st)). fst c < length chunks)
          \<and> (\<forall>j < length chunks.
                chunk_calls j (batchCalls (snd st))
                  = chunksOf (batchSize A) (successes (chunk_outcomes A j (chunks ! j)))
              \<and> concat (chunk_calls j (batchCalls (snd st)))
                  = successes (chunk_outcomes A j (chunks ! j))
              \<and> (\<forall>i. Suc i < length (chunk_calls j (batchCalls (snd st)))
                    \<longrightarrow> length (chunk_calls j (batchCalls (snd st)) ! i) = batchSize A)
              \<and> (chunk_calls j (batchCalls (snd st)) \<noteq> []
                    \<longrightarrow> 0 < length (last (chunk_calls j (batchCalls (snd st))))
                      \<and> length (last (chunk_calls j (batchCalls (snd st)))) \<le> batchSize A)))
       \<and> (\<exists>st. processItemsInParallel_run
              \<lparr>pages = [p], items = [1, 2, 3, 4, 5, 6, 7 :: nat],
               processItemFn = (\<lambda>pg x. Inr x), batchSize = 3,
               onBatchComplete = Some (\<lambda>b. None :: 'e option), onProgress = None\<rparr> sched'
              = Some st
            \<and> map snd (batchCalls (snd st)) = [[1, 2, 3], [4, 5, 6], [7]]
            \<and> map length (map snd (batchCalls (snd st))) = [3, 3, 1])"
proof -
  have general: "\<exists>chunks st.
            splitIntoChunks (items B) (length (pages B)) = Some chunks
          \<and> processItemsInParallel_run B s = Some st
          \<and> (\<forall>c \<in> set (batchCalls (snd st)). fst c < length chunks)
          \<and> (\<forall>j < length chunks.
                chunk_calls j (batchCalls (snd st))
                  = chunksOf (batchSize B) (successes (chunk_outcomes B j (chunks ! j)))
              \<and> concat (chunk_calls j (batchCalls (snd st)))
                  = successes (chunk_outcomes B j (chunks ! j))
              \<and> (\<forall>i. Suc i < length (chunk_calls j (batchCalls (snd st)))
                    \<longrightarrow> length (chunk_calls j (batchCalls (snd st)) ! i) = batchSize B)
              \<and> (chunk_calls j (batchCalls (snd st)) \<noteq> []
                    \<longrightarrow> 0 < length (last (chunk_calls j (batchCalls (snd st))))
                      \<and> length (last (chunk_calls j (batchCalls (snd st)))) \<le> batchSize B))"
    if bs: "1 \<le> batchSize B" and f: "onBatchComplete B = Some g" and ok: "callbacks_ok B"
      and ne: "pages B \<noteq> []"
    for B :: "('x, 'y, 'z, 'w) args" and g s
  proof -
    let ?chunks = "chunksOf (ceil_div (length (items B)) (length (pages B))) (items B)"
    let ?fin = "run B s (start B ?chunks)"
    have k: "1 \<le> length (pages B)" using ne by (cases "pages B") simp_all
    have sp: "splitIntoChunks (items B) (length (pages B)) = Some ?chunks"
      by (rule splitIntoChunks_chunksOf[OF k])
    have b0: "0 < batchSize B" using bs by simp
    note rf = run_flushes[OF ok f sp, where sched = s]
    have ix: "\<forall>c \<in> set (batchCalls (snd ?fin)). fst c < length ?chunks"
      using rf(3) by auto
    have per: "chunk_calls j (batchCalls (snd ?fin))
                  = chunksOf (batchSize B) (successes (chunk_outcomes B j (?chunks ! j)))
              \<and> concat (chunk_calls j (batchCalls (snd ?fin)))
                  = successes (chunk_outcomes B j (?chunks ! j))
              \<and> (\<forall>i. Suc i < length (chunk_calls j (batchCalls (snd ?fin)))
                    \<longrightarrow> length (chunk_calls j (batchCalls (snd ?fin)) ! i) = batchSize B)
              \<and> (chunk_calls j (batchCalls (snd ?fin)) \<noteq> []
                    \<longrightarrow> 0 < length (last (chunk_calls j (batchCalls (snd ?fin))))
                      \<and> length (last (chunk_calls j (batchCalls (snd ?fin)))) \<le> batchSize B)"
      if j: "j < length ?chunks" for j
    proof -
      let ?S = "successes (chunk_outcomes B j (?chunks ! j))"
      let ?F = "chunksOf (batchSize B) ?S"
      have e: "chunk_calls j (batchCalls (snd ?fin)) = ?F"
        using rf(2)[OF j] flushes_chunksOf[OF b0, of "[]" ?S] b0 by simp
      have c: "concat ?F = ?S" by (rule concat_chunksOf[OF b0])
      have n: "\<forall>i. Suc i < length ?F \<longrightarrow> length (?F ! i) = batchSize B"
        using b0 by (simp add: chunksOf_not_last)
      have l: "?F \<noteq> [] \<longrightarrow> 0 < length (last ?F) \<and> length (last ?F) \<le> batchSize B"
      proof
        assume ne: "?F \<noteq> []"
        then have la: "last ?F = ?F ! (length ?F - 1)" by (rule last_conv_nth)
        have "length ?F - 1 < length ?F" using ne by simp
        from chunksOf_nonempty[OF b0 this] la
        show "0 < length (last ?F) \<and> length (last ?F) \<le> batchSize B" by simp
      qed
      show ?thesis unfolding e using c n l by (intro conjI refl)
    qed
    have every: "\<forall>j < length ?chunks.
                chunk_calls j (batchCalls (snd ?fin))
                  = chunksOf (batchSize B) (successes (chunk_outcomes B j (?chunks ! j)))
              \<and> concat (chunk_calls j (batchCalls (snd ?fin)))
                  = successes (chunk_outcomes B j (?chunks ! j))
              \<and> (\<forall>i. Suc i < length (chunk_calls j (batchCalls (snd ?fin)))
                    \<longrightarrow> length (chunk_calls j (batchCalls (snd ?fin)) ! i) = batchSize B)
              \<and> (chunk_calls j (batchCalls (snd ?fin)) \<noteq> []
                    \<longrightarrow> 0 < length (last (chunk_calls j (batchCalls (snd ?fin))))
                      \<and> length (last (chunk_calls j (batchCalls (snd ?fin)))) \<le> batchSize B)"
      by (intro allI impI) (rule per)
    show ?thesis
      using sp rf(1) ix every by (intro exI[of _ ?chunks] exI[of _ ?fin] conjI)
  qed
  let ?ex = "\<lparr>pages = [p], items = [1, 2, 3, 4, 5, 6, 7 :: nat],
               processItemFn = (\<lambda>pg x. Inr x), batchSize = 3,
               onBatchComplete = Some (\<lambda>b. None :: 'e option), onProgress = None\<rparr>"
  have h: "1 \<le> batchSize ?ex" "onBatchComplete ?ex = Some (\<lambda>b. None)" "callbacks_ok ?ex"
    "pages ?ex \<noteq> []"
    by (simp_all add: callbacks_ok_def)
  have sx: "splitIntoChunks (items ?ex) (length (pages ?ex)) = Some [[1, 2, 3, 4, 5, 6, 7]]"
    by code_simp
  let ?st = "run ?ex sched' (start ?ex [[1, 2, 3, 4, 5, 6, 7]])"
  note rf = run_flushes[OF h(3) h(2) sx, where sched = sched']
  have r: "processItemsInParallel_run ?ex sched' = Some ?st" by (rule rf(1))
  have "fst ` set (batchCalls (snd ?st)) \<subseteq> {0}" using rf(3) by auto
  then have a: "chunk_calls 0 (batchCalls (snd ?st)) = map snd (batchCalls (snd ?st))"
    by (rule chunk_calls_all)
  have f0: "chunk_calls 0 (batchCalls (snd ?st))
              = flushes (batchSize ?ex) []
                  (successes (chunk_outcomes ?ex 0 ([[1, 2, 3, 4, 5, 6, 7]] ! 0)))"
    by (rule rf(2)) simp
  have v: "flushes (batchSize ?ex) []
                  (successes (chunk_outcomes ?ex 0 ([[1, 2, 3, 4, 5, 6, 7]] ! 0)))
             = [[1, 2, 3], [4, 5, 6], [7]]"
    by code_simp
  have m: "map snd (batchCalls (snd ?st)) = [[1, 2, 3], [4, 5, 6], [7]]"
    using f0 a v by simp
  then have l: "map length (map snd (batchCalls (snd ?st))) = [3, 3, 1]" by simp
  from r m l have "\<exists>st. processItemsInParallel_run ?ex sched' = Some st
            \<and> map snd (batchCalls (snd st)) = [[1, 2, 3], [4, 5, 6], [7]]
            \<and> map length (map snd (batchCalls (snd st))) = [3, 3, 1]"
    by (intro exI[of _ ?st] conjI)
  with general[OF assms, of sched] show ?thesis by (intro conjI)
qed


theorem onBatchComplete_flush_boundaries_witness:
  "1 \<le> batchSize \<lparr>pages = [0 :: nat, 1], items = [1, 2, 3, 4, 5 :: nat],
          processItemFn = (\<lambda>pg x. if x = 2 then Inl ''fail'' else Inr (10 * x)),
          batchSize = 2, onBatchComplete = Some (\<lambda>b. None :: string option),
          onProgress = None\<rparr> \<and>
   callbacks_ok \<lparr>pages = [0 :: nat, 1], items = [1, 2, 3, 4, 5 :: nat],
          processItemFn = (\<lambda>pg x. if x = 2 then Inl ''fail'' else Inr (10 * x)),
          batchSize = 2, onBatchComplete = Some (\<lambda>b. None :: string option),
          onProgress = None\<rparr> \<and>
   (\<exists>st. processItemsInParallel_run \<lparr>pages = [0 :: nat, 1], items = [1, 2, 3, 4, 5 :: nat],
          processItemFn = (\<lambda>pg x. if x = 2 then Inl ''fail'' else Inr (10 * x)),
          batchSize = 2, onBatchComplete = Some (\<lambda>b. None :: string option),
          onProgress = None\<rparr> [1, 0, 1, 1, 0] = Some st
      \<and> chunk_calls 0 (batchCalls (snd st)) = [[10, 30]]
      \<and> chunk_calls 1 (batchCalls (snd st)) = [[40, 50]])"
proof -
  let ?A = "\<lparr>pages = [0 :: nat, 1], items = [1, 2, 3, 4, 5 :: nat],
          processItemFn = (\<lambda>pg x. if x = 2 then Inl ''fail'' else Inr (10 * x)),
          batchSize = 2, onBatchComplete = Some (\<lambda>b. None :: string option),
          onProgress = None\<rparr>"
  have h1: "1 \<le> batchSize ?A" by simp
  have h2: "onBatchComplete ?A = Some (\<lambda>b. None)" by simp
  have h3: "callbacks_ok ?A" by (simp add: callbacks_ok_def)
  have h4: "pages ?A \<noteq> []" by simp
  have sx: "splitIntoChunks (items ?A) (length (pages ?A)) = Some [[1, 2, 3], [4, 5]]"
    by code_simp
  from onBatchComplete_flush_boundaries[OF h1 h2 h3 h4, of "[1, 0, 1, 1, 0]", THEN conjunct1]
  obtain chunks st where sp: "splitIntoChunks (items ?A) (length (pages ?A)) = Some chunks"
    and r: "processItemsInParallel_run ?A [1, 0, 1, 1, 0] = Some st"
    and every: "\<forall>j < length chunks. chunk_calls j (batchCalls (snd st))
                  = chunksOf (batchSize ?A) (successes (chunk_outcomes ?A j (chunks ! j)))"
    by blast
  have c: "chunks = [[1, 2, 3], [4, 5]]" using sp sx by simp
  have v0: "chunksOf (batchSize ?A) (successes (chunk_outcomes ?A 0 ([[1, 2, 3], [4, 5]] ! 0)))
              = [[10, 30]]"
    by code_simp
  have v1: "chunksOf (batchSize ?A) (successes (chunk_outcomes ?A 1 ([[1, 2, 3], [4, 5]] ! 1)))
              = [[40, 50]]"
    by code_simp
  have "(0::nat) < length chunks" "(1::nat) < length chunks" using c by simp_all
  with every have
    "chunk_calls 0 (batchCalls (snd st))
       = chunksOf (batchSize ?A) (successes (chunk_outcomes ?A 0 (chunks ! 0)))"
    "chunk_calls 1 (batchCalls (snd st))
       = chunksOf (batchSize ?A) (successes (chunk_outcomes ?A 1 (chunks ! 1)))"
    by blast+
  then have e: "chunk_calls 0 (batchCalls (snd st)) = [[10, 30]]"
    "chunk_calls 1 (batchCalls (snd st)) = [[40, 50]]"
    unfolding c v0 v1 by simp_all
  from r e have "\<exists>st. processItemsInParallel_run ?A [1, 0, 1, 1, 0] = Some st
      \<and> chunk_calls 0 (batchCalls (snd st)) = [[10, 30]]
      \<and> chunk_calls 1 (batchCalls (snd st)) = [[40, 50]]"
    by (intro exI[of _ st] conjI)
  with h1 h3 show ?thesis by (intro conjI)
qed

section \<open>The RabbitMQ service: \<open>RabbitMQService\<close> (lines 471-561 of the second unnamed file)\<close>

text \<open>
  \<^verbatim>\<open>
  interface ClientInfo { client: ClientProxy; connected: boolean; }

  private clients: Map<string, ClientInfo> = new Map();

  private async createClient(queue: string): Promise<ClientProxy> {
    if (this.clients.has(queue)) {
      const { client, connected } = this.clients.get(queue)!;
      if (!connected) { await this.reconnectClient(queue, client); }
      return client;
    }
    const options = { transport: Transport.RMQ, options: {
        urls: [this.configService.get<string>('RABBITMQ_URL') || 'amqp://localhost:5672'],
        queue, queueOptions: { durable: false }, prefetchCount: 10, noAck: true } };
    const client = ClientProxyFactory.create(options);
    this.clients.set(queue, { client, connected: true });
    return client;
  }

  private async reconnectClient(queue: string, client: ClientProxy): Promise<void> {
    try { await client.connect(); this.clients.set(queue, { client, connected: true }); }
    catch (error) { console.error(...); }
  }

  async emit(queue: string, pattern: string, payload: any): Promise<void> {
    try { const client = await this.createClient(queue);
          await firstValueFrom(client.emit(queue, { pattern, payload })); }
    catch (error) { console.error(...); throw error; }
  }

  async send(queue: string, pattern: string, payload: any): Promise<any> {
    try { const client = await this.createClient(queue);
          return await firstValueFrom(client.send(queue, { pattern, payload })); }
    catch (error) { console.error(...); throw error; }
  }

  async onApplicationShutdown(): Promise<void> {
    for (const [queue, { client }] of this.clients.entries()) {
      try { client.close(); } catch (error) { console.error(...); }
      this.clients.delete(queue);
    }
  }
  \<close>

  The state of the service is its map \<open>clients\<close>, an association list in insertion order
  as a JavaScript \<open>Map\<close> is (\<open>AList.update\<close> is \<open>Map.set\<close>: it replaces the value of a
  key that is there and appends a new key). The client proxies live in the messaging
  library: \<open>proxies\<close> lists the options of every proxy that \<open>ClientProxyFactory.create\<close> has
  constructed, and a proxy is referred to by its position there; constructing a proxy is
  a plain object construction and does not fail. \<open>calls\<close> is the log of the calls made on
  the proxies, in order. Whether the call number \<open>n\<close> throws, and with which message, is
  decided by the environment, \<open>throwsAt n\<close>; \<open>replyAt n\<close> is the reply it delivers when it is
  a \<open>send\<close> that succeeds. Console output is not modelled.
\<close>

text \<open>Objects of the libraries are referred to by a number.\<close>

type_synonym ref = nat

record ClientOptions =
  urls :: "string list"
  queue :: string
  durable :: bool
  prefetchCount :: nat
  noAck :: bool

record ClientInfo =
  client :: ref
  connected :: bool

record 'p envelope =
  pattern :: string
  payload :: 'p

datatype 'p amqp_call =
    Connect ref
  | Emit ref string "'p envelope"
  | Send ref string "'p envelope"
  | Close ref

record ('p, 'r) rabbit =
  clients :: "(string \<times> ClientInfo) list"
  proxies :: "ClientOptions list"
  calls :: "'p amqp_call list"
  throwsAt :: "nat \<Rightarrow> string option"
  replyAt :: "nat \<Rightarrow> 'r"
  config :: "string \<Rightarrow> string option"

definition rabbitmq_url :: "('p, 'r) rabbit \<Rightarrow> string" where
  "rabbitmq_url s =
     (case config s ''RABBITMQ_URL'' of
        None \<Rightarrow> ''amqp://localhost:5672''
      | Some u \<Rightarrow> if u = [] then ''amqp://localhost:5672'' else u)"

definition reconnectClient :: "string \<Rightarrow> ref \<Rightarrow> ('p, 'r) rabbit \<Rightarrow> ('p, 'r) rabbit" where
  "reconnectClient q c s =
     (case throwsAt s (length (calls s)) of
        None \<Rightarrow>
          s\<lparr>calls := calls s @ [Connect c],
            clients := AList.update q \<lparr>client = c, connected = True\<rparr> (clients s)\<rparr>
      | Some err \<Rightarrow> s\<lparr>calls := calls s @ [Connect c]\<rparr>)"

definition createClient :: "string \<Rightarrow> ('p, 'r) rabbit \<Rightarrow> ref \<times> ('p, 'r) rabbit" where
  "createClient q s =
     (case map_of (clients s) q of
        Some ci \<Rightarrow>
          if \<not> connected ci then (client ci, reconnectClient q (client ci) s)
          else (client ci, s)
      | None \<Rightarrow>
          (length (proxies s),
           s\<lparr>proxies := proxies s
                  @ [\<lparr>urls = [rabbitmq_url s], queue = q, durable = False,
                       prefetchCount = 10, noAck = True\<rparr>],
             clients := AList.update q \<lparr>client = length (proxies s), connected = True\<rparr>
                          (clients s)\<rparr>))"

definition emit ::
  "string \<Rightarrow> string \<Rightarrow> 'p \<Rightarrow> ('p, 'r) rabbit \<Rightarrow> (string + unit) \<times> ('p, 'r) rabbit" where
  "emit q pat x s =
     (case createClient q s of
        (c, s1) \<Rightarrow>
          (case throwsAt s1 (length (calls s1)) of
             None \<Rightarrow> Inr ()
           | Some err \<Rightarrow> Inl err,
           s1\<lparr>calls := calls s1 @ [Emit c q \<lparr>pattern = pat, payload = x\<rparr>]\<rparr>))"

definition send ::
  "string \<Rightarrow> string \<Rightarrow> 'p \<Rightarrow> ('p, 'r) rabbit \<Rightarrow> (string + 'r) \<times> ('p, 'r) rabbit" where
  "send q pat x s =
     (case createClient q s of
        (c, s1) \<Rightarrow>
          (case throwsAt s1 (length (calls s1)) of
             None \<Rightarrow> Inr (replyAt s1 (length (calls s1)))
           | Some err \<Rightarrow> Inl err,
           s1\<lparr>calls := calls s1 @ [Send c q \<lparr>pattern = pat, payload = x\<rparr>]\<rparr>))"

definition onApplicationShutdown :: "('p, 'r) rabbit \<Rightarrow> ('p, 'r) rabbit" where
  "onApplicationShutdown s =
     fold (\<lambda>(q, ci) s'. s'\<lparr>calls := calls s' @ [Close (client ci)],
                             clients := AList.delete q (clients s')\<rparr>)
       (clients s) s"

text \<open>
  A call made on the service from outside, to state what a sequence of calls does.
\<close>

datatype 'p request = EmitRequest string string 'p | SendRequest string string 'p

fun request_queue :: "'p request \<Rightarrow> string" where
  "request_queue (EmitRequest q pat x) = q"
| "request_queue (SendRequest q pat x) = q"

fun serve :: "'p request \<Rightarrow> ('p, 'r) rabbit \<Rightarrow> ('p, 'r) rabbit" where
  "serve (EmitRequest q pat x) s = snd (emit q pat x s)"
| "serve (SendRequest q pat x) s = snd (send q pat x s)"

text \<open>The service as its constructor leaves it.\<close>

definition new_service ::
  "(string \<Rightarrow> string option) \<Rightarrow> (nat \<Rightarrow> string option) \<Rightarrow> (nat \<Rightarrow> 'r) \<Rightarrow> ('p, 'r) rabbit" where
  "new_service cfg thr rep =
     \<lparr>clients = [], proxies = [], calls = [], throwsAt = thr, replyAt = rep, config = cfg\<rparr>"

text \<open>How many proxies have been constructed for a queue.\<close>

definition constructed :: "string \<Rightarrow> ('p, 'r) rabbit \<Rightarrow> nat" where
  "constructed q s = length (filter (\<lambda>opts. queue opts = q) (proxies s))"

text \<open>
  The first argument of \<open>client.emit\<close> and \<open>client.send\<close> is the pattern under which the
  transport dispatches the message.
\<close>

fun transport_pattern :: "'p amqp_call \<Rightarrow> string option" where
  "transport_pattern (Emit c tp env) = Some tp"
| "transport_pattern (Send c tp env) = Some tp"
| "transport_pattern (Connect c) = None"
| "transport_pattern (Close c) = None"


subsection \<open>Clients are created once per queue\<close>

lemma reconnectClient_fields:
  "proxies (reconnectClient q c s) = proxies s"
  "throwsAt (reconnectClient q c s) = throwsAt s"
  "replyAt (reconnectClient q c s) = replyAt s"
  "calls (reconnectClient q c s) = calls s @ [Connect c]"
  by (simp_all add: reconnectClient_def split: option.splits)

lemma reconnectClient_clients:
  "clients (reconnectClient q c s)
     = (if throwsAt s (length (calls s)) = None
        then AList.update q \<lparr>client = c, connected = True\<rparr> (clients s)
        else clients s)"
  by (simp add: reconnectClient_def split: option.splits)

lemma createClient_keys:
  "fst ` set (clients (snd (createClient q s))) = insert q (fst ` set (clients s))"
proof (cases "map_of (clients s) q")
  case None
  then show ?thesis by (simp add: createClient_def dom_update)
next
  case (Some ci)
  then have "q \<in> fst ` set (clients s)" by (metis map_of_eq_None_iff option.distinct(1))
  then show ?thesis using Some
    by (auto simp: createClient_def reconnectClient_clients dom_update)
qed

lemma createClient_distinct:
  "distinct (map fst (clients s)) \<Longrightarrow> distinct (map fst (clients (snd (createClient q s))))"
  by (simp add: createClient_def reconnectClient_clients distinct_update split: option.splits)

lemma createClient_constructed:
  "constructed q' (snd (createClient q s))
     = constructed q' s + (if q' = q \<and> q \<notin> fst ` set (clients s) then 1 else 0)"
proof (cases "map_of (clients s) q")
  case None
  then have "q \<notin> fst ` set (clients s)" by (simp add: map_of_eq_None_iff)
  then show ?thesis using None by (simp add: createClient_def constructed_def)
next
  case (Some ci)
  then have "q \<in> fst ` set (clients s)" by (metis map_of_eq_None_iff option.distinct(1))
  then show ?thesis using Some
    by (simp add: createClient_def constructed_def reconnectClient_fields)
qed

lemma createClient_oracles:
  "throwsAt (snd (createClient q s)) = throwsAt s"
  "replyAt (snd (createClient q s)) = replyAt s"
  by (simp_all add: createClient_def reconnectClient_fields split: option.splits)

lemma emit_fields:
  "clients (snd (emit q pat x s)) = clients (snd (createClient q s))"
  "proxies (snd (emit q pat x s)) = proxies (snd (createClient q s))"
  "calls (snd (emit q pat x s))
     = calls (snd (createClient q s))
       @ [Emit (fst (createClient q s)) q \<lparr>pattern = pat, payload = x\<rparr>]"
  by (simp_all add: emit_def split: prod.splits)

lemma send_fields:
  "clients (snd (send q pat x s)) = clients (snd (createClient q s))"
  "proxies (snd (send q pat x s)) = proxies (snd (createClient q s))"
  "calls (snd (send q pat x s))
     = calls (snd (createClient q s))
       @ [Send (fst (createClient q s)) q \<lparr>pattern = pat, payload = x\<rparr>]"
  by (simp_all add: send_def split: prod.splits)

lemma serve_keys:
  "fst ` set (clients (serve r s)) = insert (request_queue r) (fst ` set (clients s))"
  by (cases r) (simp_all add: emit_fields send_fields createClient_keys)

lemma serve_distinct:
  "distinct (map fst (clients s)) \<Longrightarrow> distinct (map fst (clients (serve r s)))"
  by (cases r) (simp_all add: emit_fields send_fields createClient_distinct)

lemma serve_constructed:
  "constructed q (serve r s)
     = constructed q s + (if q = request_queue r \<and> q \<notin> fst ` set (clients s) then 1 else 0)"
  by (cases r) (simp_all add: constructed_def emit_fields send_fields
      createClient_constructed[unfolded constructed_def])

definition one_per_queue :: "('p, 'r) rabbit \<Rightarrow> bool" where
  "one_per_queue s =
     (distinct (map fst (clients s)) \<and>
      (\<forall>q. constructed q s = (if q \<in> fst ` set (clients s) then 1 else 0)))"

lemma serve_one_per_queue: "one_per_queue s \<Longrightarrow> one_per_queue (serve r s)"
  by (simp add: one_per_queue_def serve_distinct serve_constructed serve_keys)

lemma fold_serve:
  "one_per_queue s \<Longrightarrow>
     one_per_queue (fold serve rs s) \<and>
     fst ` set (clients (fold serve rs s)) = request_queue ` set rs \<union> fst ` set (clients s)"
proof (induction rs arbitrary: s)
  case Nil
  then show ?case by simp
next
  case (Cons r rs)
  from Cons.IH[OF serve_one_per_queue[OF Cons.prems], of r]
  show ?case by (auto simp: serve_keys)
qed

lemma new_service_one_per_queue: "one_per_queue (new_service cfg thr rep)"
  by (simp add: one_per_queue_def new_service_def constructed_def)

lemma lifetime_constructed:
  "constructed q (fold serve rs (new_service cfg thr rep))
     = (if q \<in> request_queue ` set rs then 1 else 0)"
  "distinct (map fst (clients (fold serve rs (new_service cfg thr rep))))"
proof -
  let ?s = "fold serve rs (new_service cfg thr rep) :: ('a, 'b) rabbit"
  have a: "one_per_queue ?s"
    and b: "fst ` set (clients ?s)
              = request_queue ` set rs \<union> fst ` set (clients (new_service cfg thr rep :: ('a, 'b) rabbit))"
    using fold_serve[OF new_service_one_per_queue, of rs cfg thr rep] by blast+
  have k: "fst ` set (clients ?s) = request_queue ` set rs"
    using b by (simp add: new_service_def)
  show "constructed q ?s = (if q \<in> request_queue ` set rs then 1 else 0)"
    using a k by (simp add: one_per_queue_def)
  show "distinct (map fst (clients ?s))" using a by (simp add: one_per_queue_def)
qed


lemma createClient_cached:
  assumes "map_of (clients s) q = Some ci"
  shows "fst (createClient q s) = client ci"
    and "proxies (snd (createClient q s)) = proxies s"
    and "connected ci \<Longrightarrow> snd (createClient q s) = s"
    and "\<not> connected ci \<Longrightarrow> calls (snd (createClient q s)) = calls s @ [Connect (client ci)]"
    and "\<not> connected ci \<Longrightarrow> throwsAt s (length (calls s)) = None
           \<Longrightarrow> map_of (clients (snd (createClient q s))) q
               = Some \<lparr>client = client ci, connected = True\<rparr>"
    and "\<not> connected ci \<Longrightarrow> throwsAt s (length (calls s)) \<noteq> None
           \<Longrightarrow> clients (snd (createClient q s)) = clients s"
  using assms
  by (auto simp: createClient_def reconnectClient_fields reconnectClient_clients update_conv')

lemma createClient_absent:
  assumes "map_of (clients s) q = None"
  shows "fst (createClient q s) = length (proxies s)"
    and "calls (snd (createClient q s)) = calls s"
    and "map_of (clients (snd (createClient q s))) q
           = Some \<lparr>client = length (proxies s), connected = True\<rparr>"
    and "constructed q (snd (createClient q s)) = Suc (constructed q s)"
  using assms
  by (simp_all add: createClient_def update_conv' constructed_def)

text \<open>
  No method of the service ever stores \<open>connected: false\<close>: in every state that the
  service reaches from its construction by \<open>emit\<close> and \<open>send\<close>, every cached client is
  marked connected, so that \<open>reconnectClient\<close> is only called in states that something
  else has produced.
\<close>

lemma update_all_connected:
  "list_all (\<lambda>e. connected (snd e)) al
     \<Longrightarrow> list_all (\<lambda>e. connected (snd e)) (AList.update q \<lparr>client = c, connected = True\<rparr> al)"
  by (induction al) auto

lemma createClient_all_connected:
  "list_all (\<lambda>e. connected (snd e)) (clients s)
     \<Longrightarrow> list_all (\<lambda>e. connected (snd e)) (clients (snd (createClient q s)))"
  by (simp add: createClient_def reconnectClient_clients update_all_connected
      split: option.splits)

lemma serve_all_connected:
  "list_all (\<lambda>e. connected (snd e)) (clients s)
     \<Longrightarrow> list_all (\<lambda>e. connected (snd e)) (clients (serve r s))"
  by (cases r) (simp_all add: emit_fields send_fields createClient_all_connected)

lemma reachable_all_connected:
  "list_all (\<lambda>e. connected (snd e)) (clients s)
     \<Longrightarrow> list_all (\<lambda>e. connected (snd e)) (clients (fold serve rs s))"
  by (induction rs arbitrary: s) (simp_all add: serve_all_connected)

subsection \<open>Claim C6\<close>

text \<open>
  C6. For every queue name \<open>q\<close> the service holds at most one client for \<open>q\<close>: over any
  sequence of \<open>emit\<close> and \<open>send\<close> calls on a new service, the client of \<open>q\<close> is constructed
  once if some call names \<open>q\<close> and never otherwise, and the map has one entry per queue; in
  particular two calls naming \<open>q\<close> construct it exactly once. A call that finds the cached
  client returns that same client and constructs nothing; when the cached client is marked
  connected nothing else happens; when it is marked disconnected there is exactly one
  reconnect attempt before the client is used; a successful attempt marks it connected,
  and a failed one leaves the map as it was (the flag still false), so that the next call
  attempts to reconnect again.
\<close>

theorem rabbitmq_one_client_per_queue:
  "constructed q (fold serve rs (new_service cfg thr rep :: ('p, 'r) rabbit))
     = (if q \<in> request_queue ` set rs then 1 else 0)
   \<and> distinct (map fst (clients (fold serve rs (new_service cfg thr rep :: ('p, 'r) rabbit))))
   \<and> (request_queue r1 = q \<longrightarrow> request_queue r2 = q \<longrightarrow>
        constructed q (serve r2 (serve r1 (new_service cfg thr rep :: ('p, 'r) rabbit))) = 1)
   \<and> (map_of (clients s) q = Some ci \<longrightarrow>
        fst (createClient q s) = client ci
      \<and> proxies (snd (createClient q s)) = proxies s
      \<and> (connected ci \<longrightarrow> snd (createClient q s) = s)
      \<and> (\<not> connected ci \<longrightarrow>
            calls (snd (createClient q s)) = calls s @ [Connect (client ci)]
          \<and> (throwsAt s (length (calls s)) = None \<longrightarrow>
                map_of (clients (snd (createClient q s))) q
                  = Some \<lparr>client = client ci, connected = True\<rparr>)
          \<and> (throwsAt s (length (calls s)) \<noteq> None \<longrightarrow>
                clients (snd (createClient q s)) = clients s
              \<and> fst (createClient q (snd (createClient q s))) = client ci
              \<and> calls (snd (createClient q (snd (createClient q s))))
                  = calls s @ [Connect (client ci), Connect (client ci)])))"
proof -
  let ?new = "new_service cfg thr rep :: ('p, 'r) rabbit"
  have a: "constructed q (fold serve rs ?new) = (if q \<in> request_queue ` set rs then 1 else 0)"
    by (rule lifetime_constructed(1))
  have b: "distinct (map fst (clients (fold serve rs ?new)))"
    by (rule lifetime_constructed(2))
  have c: "request_queue r1 = q \<longrightarrow> request_queue r2 = q \<longrightarrow>
        constructed q (serve r2 (serve r1 ?new)) = 1"
    using lifetime_constructed(1)[of q "[r1, r2]" cfg thr rep] by simp
  have d: "map_of (clients s) q = Some ci \<longrightarrow>
        fst (createClient q s) = client ci
      \<and> proxies (snd (createClient q s)) = proxies s
      \<and> (connected ci \<longrightarrow> snd (createClient q s) = s)
      \<and> (\<not> connected ci \<longrightarrow>
            calls (snd (createClient q s)) = calls s @ [Connect (client ci)]
          \<and> (throwsAt s (length (calls s)) = None \<longrightarrow>
                map_of (clients (snd (createClient q s))) q
                  = Some \<lparr>client = client ci, connected = True\<rparr>)
          \<and> (throwsAt s (length (calls s)) \<noteq> None \<longrightarrow>
                clients (snd (createClient q s)) = clients s
              \<and> fst (createClient q (snd (createClient q s))) = client ci
              \<and> calls (snd (createClient q (snd (createClient q s))))
                  = calls s @ [Connect (client ci), Connect (client ci)]))"
  proof (intro impI conjI)
    assume m: "map_of (clients s) q = Some ci"
    note cc = createClient_cached[OF m]
    show "fst (createClient q s) = client ci" by (rule cc(1))
    show "proxies (snd (createClient q s)) = proxies s" by (rule cc(2))
    show "snd (createClient q s) = s" if "connected ci" using cc(3) that by simp
    show "calls (snd (createClient q s)) = calls s @ [Connect (client ci)]"
      if "\<not> connected ci" using cc(4) that by simp
    show "map_of (clients (snd (createClient q s))) q
            = Some \<lparr>client = client ci, connected = True\<rparr>"
      if "\<not> connected ci" "throwsAt s (length (calls s)) = None"
      using cc(5) that by simp
    show "clients (snd (createClient q s)) = clients s"
      if "\<not> connected ci" "throwsAt s (length (calls s)) \<noteq> None"
      using cc(6) that by simp
    assume n: "\<not> connected ci" and t: "throwsAt s (length (calls s)) \<noteq> None"
    have m': "map_of (clients (snd (createClient q s))) q = Some ci"
      using cc(6)[OF n t] m by simp
    show "fst (createClient q (snd (createClient q s))) = client ci"
      by (rule createClient_cached(1)[OF m'])
    show "calls (snd (createClient q (snd (createClient q s))))
            = calls s @ [Connect (client ci), Connect (client ci)]"
      using createClient_cached(4)[OF m' n] cc(4)[OF n] by simp
  qed
  show ?thesis using a b c d by (intro conjI)
qed


theorem rabbitmq_one_client_per_queue_witness:
  "request_queue (EmitRequest ''orders'' ''created'' (1 :: nat)) = ''orders''
   \<and> request_queue (SendRequest ''orders'' ''status'' (2 :: nat)) = ''orders''
   \<and> constructed ''orders''
        (serve (SendRequest ''orders'' ''status'' 2)
           (serve (EmitRequest ''orders'' ''created'' 1)
              (new_service (\<lambda>k. None) (\<lambda>n. None) (\<lambda>n. True) :: (nat, bool) rabbit))) = 1
   \<and> map_of (clients (\<lparr>clients = [(''orders'', \<lparr>client = 0, connected = False\<rparr>)],
          proxies = [\<lparr>urls = [''amqp://localhost:5672''], queue = ''orders'', durable = False,
                       prefetchCount = 10, noAck = True\<rparr>],
          calls = [], throwsAt = (\<lambda>n. Some ''down''), replyAt = (\<lambda>n. True),
          config = (\<lambda>k. None)\<rparr> :: (nat, bool) rabbit)) ''orders''
       = Some \<lparr>client = 0, connected = False\<rparr>
   \<and> \<not> connected \<lparr>client = 0, connected = False\<rparr>
   \<and> calls (snd (createClient ''orders'' (snd (createClient ''orders''
         (\<lparr>clients = [(''orders'', \<lparr>client = 0, connected = False\<rparr>)],
          proxies = [\<lparr>urls = [''amqp://localhost:5672''], queue = ''orders'', durable = False,
                       prefetchCount = 10, noAck = True\<rparr>],
          calls = [], throwsAt = (\<lambda>n. Some ''down''), replyAt = (\<lambda>n. True),
          config = (\<lambda>k. None)\<rparr> :: (nat, bool) rabbit)))))
       = [Connect 0, Connect 0]"
  using rabbitmq_one_client_per_queue
    [where q = "''orders''" and rs = "[]" and cfg = "\<lambda>k. None" and thr = "\<lambda>n. None"
       and rep = "\<lambda>n. True" and ?r1.0 = "EmitRequest ''orders'' ''created'' (1 :: nat)"
       and ?r2.0 = "SendRequest ''orders'' ''status'' (2 :: nat)"
       and ci = "\<lparr>client = 0, connected = False\<rparr>"
       and s = "\<lparr>clients = [(''orders'', \<lparr>client = 0, connected = False\<rparr>)],
          proxies = [\<lparr>urls = [''amqp://localhost:5672''], queue = ''orders'', durable = False,
                       prefetchCount = 10, noAck = True\<rparr>],
          calls = [], throwsAt = (\<lambda>n. Some ''down''), replyAt = (\<lambda>n. True),
          config = (\<lambda>k. None)\<rparr> :: (nat, bool) rabbit"]
  by simp

subsection \<open>Claim C9\<close>

text \<open>
  C9. For every queue, pattern and payload, in every state, \<open>emit\<close> and \<open>send\<close> dispatch
  exactly one message, on the client of the queue; its transport-level pattern is the queue
  name itself, and the caller's pattern stands only inside the envelope
  \<open>{pattern, payload}\<close>. So two calls on one queue that differ only in their pattern are
  dispatched under the same transport-level pattern.
\<close>

theorem emit_send_queue_is_transport_pattern:
  "calls (snd (emit q pat x s))
     = calls (snd (createClient q s))
       @ [Emit (fst (createClient q s)) q \<lparr>pattern = pat, payload = x\<rparr>]
   \<and> calls (snd (send q pat x s))
     = calls (snd (createClient q s))
       @ [Send (fst (createClient q s)) q \<lparr>pattern = pat, payload = x\<rparr>]
   \<and> transport_pattern (last (calls (snd (emit q pat x s)))) = Some q
   \<and> transport_pattern (last (calls (snd (send q pat x s)))) = Some q
   \<and> transport_pattern (last (calls (snd (emit q pat x s))))
       = transport_pattern (last (calls (snd (emit q pat' x s))))
   \<and> transport_pattern (last (calls (snd (send q pat x s))))
       = transport_pattern (last (calls (snd (send q pat' x s))))"
  by (simp add: emit_fields send_fields)

theorem emit_send_queue_is_transport_pattern_witness:
  "calls (snd (emit ''orders'' ''created'' (1 :: nat)
       (new_service (\<lambda>k. None) (\<lambda>n. None) (\<lambda>n. True) :: (nat, bool) rabbit)))
     = [Emit 0 ''orders'' \<lparr>pattern = ''created'', payload = 1\<rparr>]
   \<and> calls (snd (emit ''orders'' ''deleted'' (1 :: nat)
       (new_service (\<lambda>k. None) (\<lambda>n. None) (\<lambda>n. True) :: (nat, bool) rabbit)))
     = [Emit 0 ''orders'' \<lparr>pattern = ''deleted'', payload = 1\<rparr>]
   \<and> transport_pattern (last (calls (snd (emit ''orders'' ''created'' (1 :: nat)
       (new_service (\<lambda>k. None) (\<lambda>n. None) (\<lambda>n. True) :: (nat, bool) rabbit)))))
     = transport_pattern (last (calls (snd (emit ''orders'' ''deleted'' (1 :: nat)
       (new_service (\<lambda>k. None) (\<lambda>n. None) (\<lambda>n. True) :: (nat, bool) rabbit)))))"
proof -
  let ?s = "new_service (\<lambda>k. None) (\<lambda>n. None) (\<lambda>n. True) :: (nat, bool) rabbit"
  have a: "calls (snd (emit ''orders'' ''created'' (1 :: nat) ?s))
             = [Emit 0 ''orders'' \<lparr>pattern = ''created'', payload = 1\<rparr>]"
    by (simp add: emit_def createClient_def new_service_def)
  have b: "calls (snd (emit ''orders'' ''deleted'' (1 :: nat) ?s))
             = [Emit 0 ''orders'' \<lparr>pattern = ''deleted'', payload = 1\<rparr>]"
    by (simp add: emit_def createClient_def new_service_def)
  from emit_send_queue_is_transport_pattern
    [where q = "''orders''" and pat = "''created''" and pat' = "''deleted''" and x = "1 :: nat"
       and s = ?s]
  have c: "transport_pattern (last (calls (snd (emit ''orders'' ''created'' (1 :: nat) ?s))))
             = transport_pattern (last (calls (snd (emit ''orders'' ''deleted'' (1 :: nat) ?s))))"
    by (elim conjE)
  show ?thesis using a b c by (intro conjI)
qed

section \<open>The browser manager: \<open>PlaywrightService\<close> and \<open>PlaywrightManager\<close>\<close>

text \<open>
  The class \<open>PlaywrightService\<close> (playwright.service.ts) and the class \<open>PlaywrightManager\<close>
  (lines 1-460 of the second unnamed file) have the same methods, line for line, up to the
  differences listed below. The methods of \<open>PlaywrightService\<close> that the claims are about
  (comments and console output left out):

  \<^verbatim>\<open>
  private browser: Browser;                 private browserType: BrowserType;
  private isInitialized = false;
  private pagePool: Map<string, PageInfo> = new Map();     // PageInfo = {page, contextId}
  private contextPool: Map<string, BrowserContext> = new Map();
  private shouldUseHeadless: boolean = true;
  private selectedBrowserOption: BrowserOption = 'chromium';

  setConfig(headless = true, browserOption = 'chromium'): void {
    this.shouldUseHeadless = headless;  this.selectedBrowserOption = browserOption; }

  async initializeBrowser(): Promise<Browser> {
    if (this.isInitialized) {
      const currentBrowserName = this.browser.browserType().name();
      if (currentBrowserName !== this.selectedBrowserOption) {
        await this.closeAll();
        this.isInitialized = false;
      } else { return this.browser; }
    }
    if (!this.isInitialized) {
      switch (this.selectedBrowserOption) {
        case 'firefox': this.browserType = firefox; break;
        case 'webkit': this.browserType = webkit; break;
        case 'chromium': default: this.browserType = chromium; break;
      }
      this.browser = await this.browserType.launch({ headless: this.shouldUseHeadless, ... });
      const browserId = Date.now().toString();
      (this.browser as any)._instanceId = browserId;
    }
    this.isInitialized = true;
    return this.browser;
  }

  async init(headless = true, browserOption = 'chromium'): Promise<Browser> {
    this.setConfig(headless, browserOption);
    return this.initializeBrowser(); }

  async getOrCreateContext(contextId: string): Promise<BrowserContext> {
    if (!this.isInitialized) { await this.initializeBrowser(); }
    if (!this.contextPool.has(contextId)) {
      const context = await this.browser.newContext({ ... });
      await context.addInitScript(() => { ... });
      this.contextPool.set(contextId, context);
    }
    const context = this.contextPool.get(contextId);
    if (!context) { throw new Error(`Failed to create or get context with ID: ${contextId}`); }
    return context;
  }

  async createPage(contextId: string, pageId: string): Promise<Page> {
    const context = await this.getOrCreateContext(contextId);
    const page = await context.newPage();
    this.pagePool.set(pageId, {page, contextId});
    await page.route('**/*', async (route) => { await route.continue(); }, { times: 1 });
    return page;
  }

  async getPage(pageId: string): Promise<Page | null> {
    const pageInfo = this.pagePool.get(pageId);
    return pageInfo?.page || null; }

  async releasePage(pageId: string) {
    const pageInfo = this.pagePool.get(pageId);
    if (pageInfo) {
      await pageInfo.page.close().catch((err) => console.error(...));
      this.pagePool.delete(pageId);
    }
  }

  async releaseContext(contextId: string) {
    const context = this.contextPool.get(contextId);
    if (context) {
      for (const [pageId, pageInfo] of this.pagePool.entries()) {
        try { if (pageInfo.page.context() === context) { await this.releasePage(pageId); } }
        catch (error) { console.error(...); await this.releasePage(pageId); }
      }
      await context.close().catch((err) => console.error(...));
      this.contextPool.delete(contextId);
    }
  }

  async closeAll() {
    for (const pageId of this.pagePool.keys()) { await this.releasePage(pageId); }
    for (const contextId of this.contextPool.keys()) { await this.releaseContext(contextId); }
    if (this.browser) { await this.browser.close(); this.isInitialized = false; }
  }

  async loginToCoupangSite(contextId, pageId, browserOption = 'chromium'): Promise<Page> {
    let page: Page;
    try {
      if (!this.isInitialized || (this.browser.browserType().name() !== browserOption)) {
        await this.init(true, browserOption);
      }
      const existingPage = await this.getPage(pageId);
      if (existingPage && !existingPage.isClosed()) { page = existingPage; }
      else { page = await this.createPage(contextId, pageId); }
      await page.goto('https://xauth.coupang.com/auth/...', { ... });
      const isLoginPage = await page.evaluate(() => {
        return !!document.querySelector('.cp-loginpage__bg'); });
      if (!isLoginPage) { return page; }
      await page.fill('#username', this.configService.get<string>('COUPANG_EMAIL')!);
      await page.fill('#password', this.configService.get<string>('COUPANG_PASSWORD')!);
      await page.keyboard.press('Enter');
      await page.waitForLoadState('networkidle')
      return page;
    } catch (error) {
      throw new Error(`<prefix>: ${error instanceof Error ? error.message : String(error)}`);
    }
  }

  async getBrowserInfo(): Promise<object> {
    if (!this.isInitialized) { return { status: 'not_initialized' }; }
    try {
      const contexts = this.browser.contexts().length;
      const browserType = this.browser.browserType().name();
      const isConnected = !this.browser.isConnected();
      return { status: 'initialized', browserType, contexts, isConnected,
               contextIds: Array.from(this.contextPool.keys()),
               pageIds: Array.from(this.pagePool.keys()) };
    } catch (error) {
      return { status: 'error', message: error instanceof Error ? error.message : String(error) };
    }
  }

  async createParallelPages(store: string, cronId: string, concurrentCount = 2) {
    const pages: Page[] = [];
    const contextId = `context-${store}-${cronId}`;
    for (let i = 0; i < concurrentCount; i++) {
      const pageId = `page-${store}-${cronId}-${i+1}`;
      const existingPage = await this.getPage(pageId);
      const pageInfo = this.pagePool.get(pageId);
      if (existingPage && pageInfo && pageInfo.contextId === contextId) {
        pages.push(existingPage);
      } else {
        const newPage = await this.createPage(contextId, pageId);
        pages.push(newPage);
      }
    }
    return pages;
  }
  \<close>

  \<open>loginToOnchSite(store, contextId, pageId, browserOption)\<close> starts as \<open>loginToCoupangSite\<close>
  does, up to the page it works on; it then navigates to the login address, fills the two
  fields with the credentials of the store, clicks the login button and waits for the page
  to load.

  \<open>PlaywrightManager\<close> differs in this: its page pool maps a page identifier to the page
  itself and not to a pair \<open>{page, contextId}\<close>; the default of the parameter
  \<open>browserOption\<close> of the two login methods is \<open>'webkit'\<close>; the credentials are read under
  the keys \<open>L_ON_CHANNEL_EMAIL\<close> / \<open>R_ON_CHANNEL_EMAIL\<close> (and \<open>..._PASSWORD\<close>) and
  \<open>L_COUPANG_EMAIL\<close>, \<open>L_COUPANG_PASSWORD\<close>; the login methods do not wait for the page to
  load after submitting; and it has no \<open>createParallelPages\<close>. A value of type \<open>variant\<close>
  holds these differences, so that every method is modelled once, with the variant as its
  first argument.
\<close>

subsection \<open>The browser automation library\<close>

text \<open>
  Browsers, contexts and pages are objects of the browser automation library; an object is
  referred to by its position in the list of the objects of its kind that the library has
  created (\<open>browserObjs\<close>, \<open>contextObjs\<close>, \<open>pageObjs\<close>). \<open>trace\<close> is the log of the calls
  made to the library, in order. Whether the call number \<open>n\<close> throws, and with which message,
  is decided by the environment, \<open>faultAt n\<close>; so are the answer \<open>loginFormAt n\<close> of the
  login-form detector when it is the call number \<open>n\<close>, the clock \<open>dateNow\<close> and the
  configuration \<open>configGet\<close>. Console output is not modelled.
\<close>

datatype BrowserOption = chromium | firefox | webkit

record BrowserObj =
  engine :: BrowserOption
  launchedHeadless :: bool
  connectedFlag :: bool
  openContexts :: "ref list"
  instanceId :: "string option"

record ContextObj =
  ofBrowser :: ref
  contextClosed :: bool

record PageObj =
  ofContext :: ref
  pageClosed :: bool

datatype lib_call =
    Launch BrowserOption bool
  | BrowserTypeName ref
  | BrowserContexts ref
  | BrowserIsConnected ref
  | BrowserClose ref
  | NewContext ref
  | AddInitScript ref
  | ContextClose ref
  | NewPage ref
  | Route ref
  | PageClose ref
  | PageIsClosed ref
  | PageContext ref
  | Goto ref string
  | Evaluate ref
  | Fill ref string "string option"
  | Click ref string
  | Press ref string
  | WaitForLoadState ref

text \<open>
  What a method can throw. The first two are thrown by the platform: an error of the library
  and the \<open>TypeError\<close> of a member access on \<open>this.browser\<close> when it is undefined. The
  others are the errors that the class constructs itself: \<open>ContextError contextId\<close> is
  \<open>new Error(`Failed to create or get context with ID: ${contextId}`)\<close>, and
  \<open>OnchLoginError m\<close>, \<open>CoupangLoginError m\<close> are the errors that the \<open>catch\<close> blocks of the
  two login methods construct from the message \<open>m\<close> of the error they caught.
\<close>

datatype error =
    PlaywrightError string
  | TypeError string
  | ContextError string
  | OnchLoginError string
  | CoupangLoginError string

fun message :: "error \<Rightarrow> string" where
  "message (PlaywrightError m) = m"
| "message (TypeError m) = m"
| "message (ContextError contextId) = ''Failed to create or get context with ID: '' @ contextId"
| "message (OnchLoginError m) = m"
| "message (CoupangLoginError m) = m"

record world =
  browserObjs :: "BrowserObj list"
  contextObjs :: "ContextObj list"
  pageObjs :: "PageObj list"
  trace :: "lib_call list"
  faultAt :: "nat \<Rightarrow> string option"
  loginFormAt :: "nat \<Rightarrow> bool"
  dateNow :: "nat \<Rightarrow> nat"
  configGet :: "string \<Rightarrow> string option"

text \<open>
  A method is a function from the state to its outcome, \<open>Inl\<close> of the error thrown or \<open>Inr\<close>
  of the value returned, and the state it leaves; \<open>andThen\<close> is sequencing, where an error
  ends the sequence.
\<close>

type_synonym ('s, 'a) prog = "'s \<Rightarrow> (error + 'a) \<times> 's"

definition andThen :: "('s, 'a) prog \<Rightarrow> ('a \<Rightarrow> ('s, 'b) prog) \<Rightarrow> ('s, 'b) prog" where
  "andThen m f s = (case m s of (Inl e, s') \<Rightarrow> (Inl e, s') | (Inr a, s') \<Rightarrow> f a s')"

definition return :: "'a \<Rightarrow> ('s, 'a) prog" where
  "return a s = (Inr a, s)"

definition throw :: "error \<Rightarrow> ('s, 'a) prog" where
  "throw e s = (Inl e, s)"

text \<open>A call to the library: it is logged, and the environment decides whether it throws.\<close>

definition called :: "lib_call \<Rightarrow> ('z world_scheme, unit) prog" where
  "called c s =
     (case faultAt s (length (trace s)) of
        Some m \<Rightarrow> (Inl (PlaywrightError m), s\<lparr>trace := trace s @ [c]\<rparr>)
      | None \<Rightarrow> (Inr (), s\<lparr>trace := trace s @ [c]\<rparr>))"

definition launch :: "BrowserOption \<Rightarrow> bool \<Rightarrow> ('z world_scheme, ref) prog" where
  "launch opt headless =
     andThen (called (Launch opt headless))
       (\<lambda>_ s. (Inr (length (browserObjs s)),
               s\<lparr>browserObjs := browserObjs s
                     @ [\<lparr>engine = opt, launchedHeadless = headless, connectedFlag = True,
                          openContexts = [], instanceId = None\<rparr>]\<rparr>))"

definition browser_name :: "ref \<Rightarrow> ('z world_scheme, BrowserOption) prog" where
  "browser_name b =
     andThen (called (BrowserTypeName b))
       (\<lambda>_ s. if b < length (browserObjs s) then (Inr (engine (browserObjs s ! b)), s)
              else (Inl (PlaywrightError ''no such browser''), s))"

definition browser_contexts :: "ref \<Rightarrow> ('z world_scheme, ref list) prog" where
  "browser_contexts b =
     andThen (called (BrowserContexts b))
       (\<lambda>_ s. if b < length (browserObjs s) then (Inr (openContexts (browserObjs s ! b)), s)
              else (Inl (PlaywrightError ''no such browser''), s))"

definition browser_isConnected :: "ref \<Rightarrow> ('z world_scheme, bool) prog" where
  "browser_isConnected b =
     andThen (called (BrowserIsConnected b))
       (\<lambda>_ s. if b < length (browserObjs s) then (Inr (connectedFlag (browserObjs s ! b)), s)
              else (Inl (PlaywrightError ''no such browser''), s))"

definition close_contexts_of :: "ref \<Rightarrow> ContextObj list \<Rightarrow> ContextObj list" where
  "close_contexts_of b cs = map (\<lambda>c. if ofBrowser c = b then c\<lparr>contextClosed := True\<rparr> else c) cs"

definition close_pages_where :: "(ref \<Rightarrow> bool) \<Rightarrow> PageObj list \<Rightarrow> PageObj list" where
  "close_pages_where P ps = map (\<lambda>p. if P (ofContext p) then p\<lparr>pageClosed := True\<rparr> else p) ps"

definition browser_close :: "ref \<Rightarrow> ('z world_scheme, unit) prog" where
  "browser_close b =
     andThen (called (BrowserClose b))
       (\<lambda>_ s. (Inr (),
               s\<lparr>browserObjs := (browserObjs s)
                     [b := (browserObjs s ! b)\<lparr>connectedFlag := False, openContexts := []\<rparr>],
                 contextObjs := close_contexts_of b (contextObjs s),
                 pageObjs := close_pages_where
                     (\<lambda>c. c < length (contextObjs s) \<and> ofBrowser (contextObjs s ! c) = b)
                     (pageObjs s)\<rparr>))"

definition newContext :: "ref \<Rightarrow> ('z world_scheme, ref) prog" where
  "newContext b =
     andThen (called (NewContext b))
       (\<lambda>_ s. (Inr (length (contextObjs s)),
               s\<lparr>contextObjs := contextObjs s @ [\<lparr>ofBrowser = b, contextClosed = False\<rparr>],
                 browserObjs := (browserObjs s)
                     [b := (browserObjs s ! b)
                        \<lparr>openContexts := openContexts (browserObjs s ! b)
                                           @ [length (contextObjs s)]\<rparr>]\<rparr>))"

definition addInitScript :: "ref \<Rightarrow> ('z world_scheme, unit) prog" where
  "addInitScript c = called (AddInitScript c)"

definition context_close :: "ref \<Rightarrow> ('z world_scheme, unit) prog" where
  "context_close c =
     andThen (called (ContextClose c))
       (\<lambda>_ s. (Inr (),
               s\<lparr>contextObjs := (contextObjs s)[c := (contextObjs s ! c)\<lparr>contextClosed := True\<rparr>],
                 browserObjs := map (\<lambda>b. b\<lparr>openContexts := removeAll c (openContexts b)\<rparr>)
                                  (browserObjs s),
                 pageObjs := close_pages_where (\<lambda>c'. c' = c) (pageObjs s)\<rparr>))"

definition newPage :: "ref \<Rightarrow> ('z world_scheme, ref) prog" where
  "newPage c =
     andThen (called (NewPage c))
       (\<lambda>_ s. (Inr (length (pageObjs s)),
               s\<lparr>pageObjs := pageObjs s @ [\<lparr>ofContext = c, pageClosed = False\<rparr>]\<rparr>))"

definition route :: "ref \<Rightarrow> ('z world_scheme, unit) prog" where
  "route p = called (Route p)"

definition page_close :: "ref \<Rightarrow> ('z world_scheme, unit) prog" where
  "page_close p =
     andThen (called (PageClose p))
       (\<lambda>_ s. (Inr (), s\<lparr>pageObjs := (pageObjs s)[p := (pageObjs s ! p)\<lparr>pageClosed := True\<rparr>]\<rparr>))"

definition page_isClosed :: "ref \<Rightarrow> ('z world_scheme, bool) prog" where
  "page_isClosed p =
     andThen (called (PageIsClosed p))
       (\<lambda>_ s. if p < length (pageObjs s) then (Inr (pageClosed (pageObjs s ! p)), s)
              else (Inl (PlaywrightError ''no such page''), s))"

definition page_context :: "ref \<Rightarrow> ('z world_scheme, ref) prog" where
  "page_context p =
     andThen (called (PageContext p))
       (\<lambda>_ s. if p < length (pageObjs s) then (Inr (ofContext (pageObjs s ! p)), s)
              else (Inl (PlaywrightError ''no such page''), s))"

definition goto :: "ref \<Rightarrow> string \<Rightarrow> ('z world_scheme, unit) prog" where
  "goto p url = called (Goto p url)"

definition evaluate :: "ref \<Rightarrow> ('z world_scheme, bool) prog" where
  "evaluate p s =
     (case called (Evaluate p) s of
        (Inl e, s') \<Rightarrow> (Inl e, s')
      | (Inr _, s') \<Rightarrow> (Inr (loginFormAt s (length (trace s))), s'))"

definition fill :: "ref \<Rightarrow> string \<Rightarrow> string option \<Rightarrow> ('z world_scheme, unit) prog" where
  "fill p selector v = called (Fill p selector v)"

definition click :: "ref \<Rightarrow> string \<Rightarrow> ('z world_scheme, unit) prog" where
  "click p selector = called (Click p selector)"

definition press :: "ref \<Rightarrow> string \<Rightarrow> ('z world_scheme, unit) prog" where
  "press p key = called (Press p key)"

definition waitForLoadState :: "ref \<Rightarrow> ('z world_scheme, unit) prog" where
  "waitForLoadState p = called (WaitForLoadState p)"

text \<open>
  The selectors and addresses that the login methods use; the two placeholders of the Onch
  login form are Korean text, given here by their UTF-8 bytes.
\<close>

definition onch_id_selector :: string where
  "onch_id_selector = ''input[placeholder='' @ [CHR 0x22]
     @ [CHR 0xEC, CHR 0x98, CHR 0xA8, CHR 0xEC, CHR 0xB1, CHR 0x84, CHR 0xEB, CHR 0x84, CHR 0x90]
     @ '' '' @ [CHR 0xEB, CHR 0x98, CHR 0x90, CHR 0xEB, CHR 0x8A, CHR 0x94]
     @ '' '' @ [CHR 0xED, CHR 0x86, CHR 0xB5, CHR 0xED, CHR 0x95, CHR 0xA9, CHR 0xEA, CHR 0xB3,
                CHR 0x84, CHR 0xEC, CHR 0xA0, CHR 0x95]
     @ '' '' @ [CHR 0xEC, CHR 0x95, CHR 0x84, CHR 0xEC, CHR 0x9D, CHR 0xB4, CHR 0xEB, CHR 0x94,
                CHR 0x94]
     @ [CHR 0x22] @ '']''"

definition onch_password_selector :: string where
  "onch_password_selector = ''input[placeholder='' @ [CHR 0x22]
     @ [CHR 0xEB, CHR 0xB9, CHR 0x84, CHR 0xEB, CHR 0xB0, CHR 0x80, CHR 0xEB, CHR 0xB2, CHR 0x88,
        CHR 0xED, CHR 0x98, CHR 0xB8]
     @ '' '' @ [CHR 0xEC, CHR 0x9E, CHR 0x85, CHR 0xEB, CHR 0xA0, CHR 0xA5]
     @ [CHR 0x22] @ '']''"

definition onch_login_button :: string where
  "onch_login_button = ''button[name='' @ [CHR 0x22] @ ''login'' @ [CHR 0x22] @ '']''"

definition onch_login_url :: string where
  "onch_login_url = ''https://www.onch3.co.kr/login/login_web.php''"

definition coupang_login_url :: string where
  "coupang_login_url = ''https://xauth.coupang.com/auth/realms/seller/protocol/openid-connect/auth?response_type=code&client_id=wing&redirect_uri=https%3A%2F%2Fwing.coupang.com%2Fsso%2Flogin?returnUrl%3D%252F&state=ec02db23-2738-48a2-b15e-81d22b32be64&login=true&scope=openid''"

text \<open>\<open>toString\<close> of a natural number, in decimal.\<close>

definition digit_char :: "nat \<Rightarrow> char" where
  "digit_char d =
     (if d = 0 then CHR ''0'' else if d = 1 then CHR ''1'' else if d = 2 then CHR ''2''
      else if d = 3 then CHR ''3'' else if d = 4 then CHR ''4'' else if d = 5 then CHR ''5''
      else if d = 6 then CHR ''6'' else if d = 7 then CHR ''7'' else if d = 8 then CHR ''8''
      else CHR ''9'')"

fun string_of_nat :: "nat \<Rightarrow> string" where
  "string_of_nat n =
     (if n < 10 then [digit_char n]
      else string_of_nat (n div 10) @ [digit_char (n mod 10)])"

declare string_of_nat.simps [simp del]

subsection \<open>The two manager classes\<close>

text \<open>
  The state of a manager object: the library and the environment (\<open>world\<close>) and the
  private fields of the class. The pools are association lists in insertion order, as a
  JavaScript \<open>Map\<close> is. \<open>'pi\<close> is the type of the entries of the page pool.
\<close>

record PageInfo =
  page :: ref
  contextId :: string

record 'pi manager = world +
  browser :: "ref option"
  browserType :: "BrowserOption option"
  isInitialized :: bool
  pagePool :: "(string \<times> 'pi) list"
  contextPool :: "(string \<times> ref) list"
  shouldUseHeadless :: bool
  selectedBrowserOption :: BrowserOption

record 'pi variant =
  entryPage :: "'pi \<Rightarrow> ref"
  mkEntry :: "ref \<Rightarrow> string \<Rightarrow> 'pi"
  defaultBrowserOption :: BrowserOption
  onchEmailKey :: "string \<Rightarrow> string"
  onchPasswordKey :: "string \<Rightarrow> string"
  coupangEmailKey :: string
  coupangPasswordKey :: string
  waitsAfterSubmit :: bool

definition PlaywrightService :: "PageInfo variant" where
  "PlaywrightService =
     \<lparr>entryPage = page,
      mkEntry = (\<lambda>p c. \<lparr>page = p, contextId = c\<rparr>),
      defaultBrowserOption = chromium,
      onchEmailKey = (\<lambda>store. if store = ''linkedout'' then ''ON_CHANNEL_EMAIL''
                                else ''ON_CHANNEL_EMAIL''),
      onchPasswordKey = (\<lambda>store. if store = ''linkedout'' then ''ON_CHANNEL_PASSWORD''
                                   else ''ON_CHANNEL_PASSWORD''),
      coupangEmailKey = ''COUPANG_EMAIL'',
      coupangPasswordKey = ''COUPANG_PASSWORD'',
      waitsAfterSubmit = True\<rparr>"

definition PlaywrightManager :: "ref variant" where
  "PlaywrightManager =
     \<lparr>entryPage = (\<lambda>p. p),
      mkEntry = (\<lambda>p c. p),
      defaultBrowserOption = webkit,
      onchEmailKey = (\<lambda>store. if store = ''linkedout'' then ''L_ON_CHANNEL_EMAIL''
                                else ''R_ON_CHANNEL_EMAIL''),
      onchPasswordKey = (\<lambda>store. if store = ''linkedout'' then ''L_ON_CHANNEL_PASSWORD''
                                   else ''R_ON_CHANNEL_PASSWORD''),
      coupangEmailKey = ''L_COUPANG_EMAIL'',
      coupangPasswordKey = ''L_COUPANG_PASSWORD'',
      waitsAfterSubmit = False\<rparr>"

text \<open>The object as its constructor leaves it, in a given environment.\<close>

definition new_manager ::
  "(nat \<Rightarrow> string option) \<Rightarrow> (nat \<Rightarrow> bool) \<Rightarrow> (nat \<Rightarrow> nat) \<Rightarrow> (string \<Rightarrow> string option)
     \<Rightarrow> 'pi manager" where
  "new_manager faults forms clock cfg =
     \<lparr>browserObjs = [], contextObjs = [], pageObjs = [], trace = [],
      faultAt = faults, loginFormAt = forms, dateNow = clock, configGet = cfg,
      browser = None, browserType = None, isInitialized = False,
      pagePool = [], contextPool = [],
      shouldUseHeadless = True, selectedBrowserOption = chromium\<rparr>"

definition setConfig :: "bool \<Rightarrow> BrowserOption \<Rightarrow> 'pi manager \<Rightarrow> 'pi manager" where
  "setConfig headless browserOption s =
     s\<lparr>shouldUseHeadless := headless, selectedBrowserOption := browserOption\<rparr>"

text \<open>A member access on \<open>this.browser\<close>.\<close>

definition this_browser :: "('pi manager, ref) prog" where
  "this_browser s =
     (case browser s of
        None \<Rightarrow> (Inl (TypeError ''Cannot read properties of undefined''), s)
      | Some b \<Rightarrow> (Inr b, s))"

text \<open>
  \<open>releasePage\<close>, \<open>releaseContext\<close>: the errors of \<open>close()\<close> are caught and logged, so these
  two methods never throw and are functions on the state. The loops of \<open>releaseContext\<close> and
  \<open>closeAll\<close> go over the entries that the pool has when the loop starts; an entry is only
  ever removed by the iteration that visits it.
\<close>

definition releasePage :: "'pi variant \<Rightarrow> string \<Rightarrow> 'pi manager \<Rightarrow> 'pi manager" where
  "releasePage V pageId s =
     (case map_of (pagePool s) pageId of
        None \<Rightarrow> s
      | Some pageInfo \<Rightarrow>
          (case page_close (entryPage V pageInfo) s of
             (r, s1) \<Rightarrow> s1\<lparr>pagePool := AList.delete pageId (pagePool s1)\<rparr>))"

definition releaseContext :: "'pi variant \<Rightarrow> string \<Rightarrow> 'pi manager \<Rightarrow> 'pi manager" where
  "releaseContext V ctxId s =
     (case map_of (contextPool s) ctxId of
        None \<Rightarrow> s
      | Some ctx \<Rightarrow>
          (case context_close ctx
                  (fold (\<lambda>(pageId, pageInfo) s'.
                           case page_context (entryPage V pageInfo) s' of
                             (Inr c, s'') \<Rightarrow> if c = ctx then releasePage V pageId s'' else s''
                           | (Inl e, s'') \<Rightarrow> releasePage V pageId s'')
                     (pagePool s) s) of
             (r, s2) \<Rightarrow> s2\<lparr>contextPool := AList.delete ctxId (contextPool s2)\<rparr>))"

definition closeAll :: "'pi variant \<Rightarrow> ('pi manager, unit) prog" where
  "closeAll V s =
     (let s1 = fold (releasePage V) (map fst (pagePool s)) s;
          s2 = fold (releaseContext V) (map fst (contextPool s1)) s1
      in case browser s2 of
           None \<Rightarrow> (Inr (), s2)
         | Some b \<Rightarrow>
             andThen (browser_close b) (\<lambda>_ s3. (Inr (), s3\<lparr>isInitialized := False\<rparr>)) s2)"

text \<open>
  \<open>initializeBrowser\<close>: \<open>launchSelected\<close> is its second half, lines 93-127, from
  \<open>if (!this.isInitialized)\<close> on.
\<close>

definition launchSelected :: "('pi manager, ref option) prog" where
  "launchSelected s =
     (if \<not> isInitialized s
      then andThen
             (\<lambda>s1. launch (selectedBrowserOption s1) (shouldUseHeadless s1)
                      (s1\<lparr>browserType :=
                            Some (case selectedBrowserOption s1 of
                                    firefox \<Rightarrow> firefox
                                  | webkit \<Rightarrow> webkit
                                  | chromium \<Rightarrow> chromium)\<rparr>))
             (\<lambda>b s2.
                (Inr (Some b),
                 s2\<lparr>browser := Some b,
                    browserObjs := (browserObjs s2)
                      [b := (browserObjs s2 ! b)
                         \<lparr>instanceId := Some (string_of_nat (dateNow s2 (length (trace s2))))\<rparr>],
                    isInitialized := True\<rparr>))
             s
      else (Inr (browser s), s\<lparr>isInitialized := True\<rparr>))"

definition initializeBrowser :: "'pi variant \<Rightarrow> ('pi manager, ref option) prog" where
  "initializeBrowser V s =
     (if isInitialized s
      then andThen this_browser
             (\<lambda>b. andThen (browser_name b)
                (\<lambda>currentBrowserName s1.
                   if currentBrowserName \<noteq> selectedBrowserOption s1
                   then andThen (closeAll V)
                          (\<lambda>_ s2. launchSelected (s2\<lparr>isInitialized := False\<rparr>)) s1
                   else (Inr (browser s1), s1)))
             s
      else launchSelected s)"

definition init :: "'pi variant \<Rightarrow> bool \<Rightarrow> BrowserOption \<Rightarrow> ('pi manager, ref option) prog" where
  "init V headless browserOption s = initializeBrowser V (setConfig headless browserOption s)"

definition getOrCreateContext :: "'pi variant \<Rightarrow> string \<Rightarrow> ('pi manager, ref) prog" where
  "getOrCreateContext V ctxId =
     andThen (\<lambda>s. if \<not> isInitialized s
                   then andThen (initializeBrowser V) (\<lambda>_. return ()) s
                   else return () s)
       (\<lambda>_. andThen
          (\<lambda>s. if map_of (contextPool s) ctxId = None
                then andThen this_browser
                       (\<lambda>b. andThen (newContext b)
                          (\<lambda>ctx. andThen (addInitScript ctx)
                             (\<lambda>_ s'. (Inr (),
                                s'\<lparr>contextPool := AList.update ctxId ctx (contextPool s')\<rparr>))))
                       s
                else return () s)
          (\<lambda>_ s. case map_of (contextPool s) ctxId of
                    None \<Rightarrow> throw (ContextError ctxId) s
                  | Some ctx \<Rightarrow> return ctx s))"

definition createPage :: "'pi variant \<Rightarrow> string \<Rightarrow> string \<Rightarrow> ('pi manager, ref) prog" where
  "createPage V ctxId pageId =
     andThen (getOrCreateContext V ctxId)
       (\<lambda>ctx. andThen (newPage ctx)
          (\<lambda>p. andThen
             (\<lambda>s. (Inr (),
                    s\<lparr>pagePool := AList.update pageId (mkEntry V p ctxId) (pagePool s)\<rparr>))
             (\<lambda>_. andThen (route p) (\<lambda>_. return p))))"

definition getPage :: "'pi variant \<Rightarrow> string \<Rightarrow> 'pi manager \<Rightarrow> ref option" where
  "getPage V pageId s = map_option (entryPage V) (map_of (pagePool s) pageId)"

text \<open>
  The two login methods start with the same lines: \<open>ensureBrowser\<close> is the first \<open>if\<close>
  statement of both, \<open>existingOrNewPage\<close> is the choice of the page that follows it.
\<close>

definition ensureBrowser :: "'pi variant \<Rightarrow> BrowserOption \<Rightarrow> ('pi manager, unit) prog" where
  "ensureBrowser V browserOption s =
     (if \<not> isInitialized s
      then andThen (init V True browserOption) (\<lambda>_. return ()) s
      else andThen this_browser
             (\<lambda>b. andThen (browser_name b)
                (\<lambda>name. if name \<noteq> browserOption
                         then andThen (init V True browserOption) (\<lambda>_. return ())
                         else return ()))
             s)"

definition existingOrNewPage :: "'pi variant \<Rightarrow> string \<Rightarrow> string \<Rightarrow> ('pi manager, ref) prog" where
  "existingOrNewPage V ctxId pageId s =
     (case getPage V pageId s of
        None \<Rightarrow> createPage V ctxId pageId s
      | Some existingPage \<Rightarrow>
          andThen (page_isClosed existingPage)
            (\<lambda>closed. if \<not> closed then return existingPage
                       else createPage V ctxId pageId)
            s)"

definition loginToOnchSite ::
  "'pi variant \<Rightarrow> string \<Rightarrow> string \<Rightarrow> string \<Rightarrow> BrowserOption \<Rightarrow> ('pi manager, ref) prog" where
  "loginToOnchSite V store ctxId pageId browserOption s =
     (case andThen (ensureBrowser V browserOption)
             (\<lambda>_. andThen (existingOrNewPage V ctxId pageId)
                (\<lambda>p. andThen (goto p onch_login_url)
                   (\<lambda>_. andThen (\<lambda>s'. fill p onch_id_selector
                                          (configGet s' (onchEmailKey V store)) s')
                      (\<lambda>_. andThen (\<lambda>s'. fill p onch_password_selector
                                             (configGet s' (onchPasswordKey V store)) s')
                         (\<lambda>_. andThen (click p onch_login_button)
                            (\<lambda>_. if waitsAfterSubmit V
                                  then andThen (waitForLoadState p) (\<lambda>_. return p)
                                  else return p))))))
             s of
        (Inl e, s') \<Rightarrow> (Inl (OnchLoginError (message e)), s')
      | (Inr p, s') \<Rightarrow> (Inr p, s'))"

definition loginToCoupangSite ::
  "'pi variant \<Rightarrow> string \<Rightarrow> string \<Rightarrow> BrowserOption \<Rightarrow> ('pi manager, ref) prog" where
  "loginToCoupangSite V ctxId pageId browserOption s =
     (case andThen (ensureBrowser V browserOption)
             (\<lambda>_. andThen (existingOrNewPage V ctxId pageId)
                (\<lambda>p. andThen (goto p coupang_login_url)
                   (\<lambda>_. andThen (evaluate p)
                      (\<lambda>isLoginPage.
                         if \<not> isLoginPage then return p
                         else andThen (\<lambda>s'. fill p ''#username''
                                               (configGet s' (coupangEmailKey V)) s')
                                (\<lambda>_. andThen (\<lambda>s'. fill p ''#password''
                                                    (configGet s' (coupangPasswordKey V)) s')
                                   (\<lambda>_. andThen (press p ''Enter'')
                                      (\<lambda>_. if waitsAfterSubmit V
                                            then andThen (waitForLoadState p) (\<lambda>_. return p)
                                            else return p)))))))
             s of
        (Inl e, s') \<Rightarrow> (Inl (CoupangLoginError (message e)), s')
      | (Inr p, s') \<Rightarrow> (Inr p, s'))"

text \<open>
  \<open>getBrowserInfo\<close>. The object returned is \<open>NotInitialized\<close> for
  \<open>{status: 'not_initialized'}\<close>, \<open>Initialized browserType contexts isConnected contextIds
  pageIds\<close> for the snapshot with \<open>status: 'initialized'\<close>, and \<open>InfoError message\<close> for
  \<open>{status: 'error', message}\<close>.
\<close>

datatype BrowserInfo =
    NotInitialized
  | Initialized BrowserOption nat bool "string list" "string list"
  | InfoError string

definition getBrowserInfo :: "'pi manager \<Rightarrow> BrowserInfo \<times> 'pi manager" where
  "getBrowserInfo s =
     (if \<not> isInitialized s then (NotInitialized, s)
      else case andThen this_browser
                  (\<lambda>b. andThen (browser_contexts b)
                     (\<lambda>cs. andThen (browser_name b)
                        (\<lambda>name. andThen (browser_isConnected b)
                           (\<lambda>c s'. (Inr (Initialized name (length cs) (\<not> c)
                                           (map fst (contextPool s')) (map fst (pagePool s'))),
                                    s')))))
                  s of
             (Inl e, s') \<Rightarrow> (InfoError (message e), s')
           | (Inr info, s') \<Rightarrow> (info, s'))"

text \<open>\<open>createParallelPages\<close> (of \<open>PlaywrightService\<close> only).\<close>

definition createParallelPages ::
  "string \<Rightarrow> string \<Rightarrow> nat \<Rightarrow> (PageInfo manager, ref list) prog" where
  "createParallelPages store cronId concurrentCount =
     fold (\<lambda>i acc.
             andThen acc
               (\<lambda>pagesSoFar s.
                  let targetContextId = ''context-'' @ store @ ''-'' @ cronId;
                      pageId = ''page-'' @ store @ ''-'' @ cronId @ ''-'' @ string_of_nat (i + 1)
                  in case map_of (pagePool s) pageId of
                       Some pageInfo \<Rightarrow>
                         if contextId pageInfo = targetContextId
                         then return (pagesSoFar @ [page pageInfo]) s
                         else andThen (createPage PlaywrightService targetContextId pageId)
                                (\<lambda>newPage. return (pagesSoFar @ [newPage])) s
                     | None \<Rightarrow>
                         andThen (createPage PlaywrightService targetContextId pageId)
                           (\<lambda>newPage. return (pagesSoFar @ [newPage])) s))
       [0..<concurrentCount] (return [])"

text \<open>A new manager in an environment where no call throws and no login form is found, and
  a manager after \<open>init\<close> in an environment with the given faults.\<close>

definition fresh_manager :: "'pi manager" where
  "fresh_manager = new_manager (\<lambda>n. None) (\<lambda>n. False) (\<lambda>n. n) (\<lambda>k. None)"

definition launched ::
  "'pi variant \<Rightarrow> BrowserOption \<Rightarrow> (nat \<Rightarrow> string option) \<Rightarrow> 'pi manager" where
  "launched V browserOption faults =
     snd (init V True browserOption (new_manager faults (\<lambda>n. False) (\<lambda>n. n) (\<lambda>k. None)))"

lemmas lib_defs = andThen_def return_def throw_def called_def launch_def browser_name_def
  browser_contexts_def browser_isConnected_def close_contexts_of_def close_pages_where_def
  browser_close_def newContext_def addInitScript_def context_close_def newPage_def route_def
  page_close_def page_isClosed_def page_context_def goto_def evaluate_def fill_def click_def
  press_def waitForLoadState_def

lemmas manager_defs = setConfig_def this_browser_def releasePage_def releaseContext_def
  closeAll_def launchSelected_def initializeBrowser_def init_def getOrCreateContext_def
  createPage_def getPage_def ensureBrowser_def existingOrNewPage_def

subsection \<open>What every operation preserves\<close>

text \<open>
  The errors of the platform, and three classes of library calls: those that close pages and
  contexts, those that the manager makes outside the login forms, and the input into a form.
\<close>

fun lib_error :: "error \<Rightarrow> bool" where
  "lib_error (PlaywrightError m) = True"
| "lib_error (TypeError m) = True"
| "lib_error (ContextError c) = False"
| "lib_error (OnchLoginError m) = False"
| "lib_error (CoupangLoginError m) = False"

fun releases :: "lib_call \<Rightarrow> bool" where
  "releases (PageClose p) = True"
| "releases (PageContext p) = True"
| "releases (ContextClose c) = True"
| "releases c = False"

fun manages :: "lib_call \<Rightarrow> bool" where
  "manages (Goto p url) = False"
| "manages (Evaluate p) = False"
| "manages (Fill p sel v) = False"
| "manages (Click p sel) = False"
| "manages (Press p k) = False"
| "manages (WaitForLoadState p) = False"
| "manages (BrowserContexts b) = False"
| "manages (BrowserIsConnected b) = False"
| "manages c = True"

fun form_input :: "lib_call \<Rightarrow> bool" where
  "form_input (Fill p sel v) = True"
| "form_input (Press p k) = True"
| "form_input c = False"

text \<open>
  \<open>evolves P s s'\<close>: from \<open>s\<close> to \<open>s'\<close> the log has grown by calls that satisfy \<open>P\<close>, the
  environment is the same, no page object has disappeared and no closed page has reopened.
  A method is \<open>sound P\<close> when every run of it evolves the state so and throws errors of the
  platform only; \<open>quiet P\<close> is the same for a method that cannot throw.
\<close>

definition evolves :: "(lib_call \<Rightarrow> bool) \<Rightarrow> 'z world_scheme \<Rightarrow> 'z world_scheme \<Rightarrow> bool" where
  "evolves P s s' \<longleftrightarrow>
     (\<exists>es. trace s' = trace s @ es \<and> list_all P es) \<and>
     faultAt s' = faultAt s \<and> loginFormAt s' = loginFormAt s \<and>
     dateNow s' = dateNow s \<and> configGet s' = configGet s \<and>
     length (pageObjs s) \<le> length (pageObjs s') \<and>
     (\<forall>q<length (pageObjs s). pageClosed (pageObjs s ! q) \<longrightarrow> pageClosed (pageObjs s' ! q))"

definition sound :: "(lib_call \<Rightarrow> bool) \<Rightarrow> ('z world_scheme, 'a) prog \<Rightarrow> bool" where
  "sound P m \<longleftrightarrow> (\<forall>s r s'. m s = (r, s') \<longrightarrow> evolves P s s' \<and> (\<forall>e. r = Inl e \<longrightarrow> lib_error e))"

definition quiet :: "(lib_call \<Rightarrow> bool) \<Rightarrow> ('z world_scheme \<Rightarrow> 'z world_scheme) \<Rightarrow> bool" where
  "quiet P f \<longleftrightarrow> (\<forall>s. evolves P s (f s))"

text \<open>
  What the manager knows of the browsers: the engine and the is-connected signal of every
  browser object, and the fields \<open>browser\<close>, \<open>isInitialized\<close>, \<open>selectedBrowserOption\<close>,
  \<open>shouldUseHeadless\<close>. The release loops leave it as it is.
\<close>

definition browsers_view ::
  "'pi manager \<Rightarrow> BrowserOption list \<times> bool list \<times> ref option \<times> bool \<times> BrowserOption \<times> bool" where
  "browsers_view s =
     (map engine (browserObjs s), map connectedFlag (browserObjs s), browser s,
      isInitialized s, selectedBrowserOption s, shouldUseHeadless s)"

text \<open>The state after the two loops of \<open>closeAll\<close>.\<close>

definition released :: "'pi variant \<Rightarrow> 'pi manager \<Rightarrow> 'pi manager" where
  "released V s =
     fold (releaseContext V)
        (map fst (contextPool (fold (releasePage V) (map fst (pagePool s)) s)))
        (fold (releasePage V) (map fst (pagePool s)) s)"


text \<open>
  A method is \<open>inert\<close> when it leaves the page objects as they are, and it \<open>works_on p\<close> when
  moreover the only page it can return is \<open>p\<close>.
\<close>

definition inert :: "('z world_scheme, 'a) prog \<Rightarrow> bool" where
  "inert m \<longleftrightarrow> (\<forall>s r s'. m s = (r, s') \<longrightarrow> pageObjs s' = pageObjs s)"

definition works_on :: "ref \<Rightarrow> ('z world_scheme, ref) prog \<Rightarrow> bool" where
  "works_on p m \<longleftrightarrow>
     (\<forall>s r s'. m s = (r, s') \<longrightarrow> pageObjs s' = pageObjs s \<and> (\<forall>q. r = Inr q \<longrightarrow> q = p))"


definition page_closed_by_caller :: "'pi variant \<Rightarrow> 'pi manager" where
  "page_closed_by_caller V =
     snd (page_close 0
            (snd (createPage V ''context-shop-job'' ''page-shop-job-1'' fresh_manager)))"

subsection \<open>Sequencing\<close>

lemma andThen_cases:
  assumes "andThen m f s = (r, s')"
  obtains (fails) e where "m s = (Inl e, s')" "r = Inl e"
    | (goes) a s1 where "m s = (Inr a, s1)" "f a s1 = (r, s')"
proof (cases "m s")
  case (Pair x s1)
  show ?thesis
  proof (cases x)
    case (Inl e)
    with Pair assms fails show ?thesis by (simp add: andThen_def)
  next
    case (Inr a)
    with Pair assms goes show ?thesis by (simp add: andThen_def)
  qed
qed

subsection \<open>Every operation is sound\<close>

lemma evolves_refl: "evolves P s s"
  by (simp add: evolves_def)

lemma evolves_trans:
  assumes "evolves P s s1" "evolves P s1 s2"
  shows "evolves P s s2"
proof -
  from assms(1) obtain es1 where e1: "trace s1 = trace s @ es1" "list_all P es1"
    by (auto simp: evolves_def)
  from assms(2) obtain es2 where e2: "trace s2 = trace s1 @ es2" "list_all P es2"
    by (auto simp: evolves_def)
  have t: "trace s2 = trace s @ (es1 @ es2) \<and> list_all P (es1 @ es2)"
    using e1 e2 by simp
  have c: "\<forall>q<length (pageObjs s). pageClosed (pageObjs s ! q) \<longrightarrow> pageClosed (pageObjs s2 ! q)"
    using assms unfolding evolves_def by (meson less_le_trans)
  show ?thesis
    unfolding evolves_def using t c assms unfolding evolves_def
    by (intro conjI exI[of _ "es1 @ es2"]) simp_all
qed

lemma evolves_mono:
  assumes "evolves P s s'" "\<And>c. P c \<Longrightarrow> Q c"
  shows "evolves Q s s'"
proof -
  from assms(1) obtain es where e: "trace s' = trace s @ es" "list_all P es"
    by (auto simp: evolves_def)
  from e(2) assms(2) have "list_all Q es" by (auto simp: list_all_iff)
  with e(1) assms(1) show ?thesis unfolding evolves_def by blast
qed

lemma soundI:
  assumes "\<And>s r s'. m s = (r, s') \<Longrightarrow> evolves P s s'"
    and "\<And>s e s'. m s = (Inl e, s') \<Longrightarrow> lib_error e"
  shows "sound P m"
  using assms unfolding sound_def by blast

lemma soundD:
  assumes "sound P m" "m s = (r, s')"
  shows "evolves P s s'" and "r = Inl e \<Longrightarrow> lib_error e"
  using assms unfolding sound_def by blast+

lemma sound_error:
  assumes "sound P m" "m s = (Inl e, s')"
  shows "lib_error e"
  using assms unfolding sound_def by blast

lemma sound_mono: "sound P m \<Longrightarrow> (\<And>c. P c \<Longrightarrow> Q c) \<Longrightarrow> sound Q m"
  unfolding sound_def using evolves_mono by blast

lemma quiet_mono: "quiet P f \<Longrightarrow> (\<And>c. P c \<Longrightarrow> Q c) \<Longrightarrow> quiet Q f"
  unfolding quiet_def using evolves_mono by blast

lemma sound_andThen:
  assumes "sound P m" "\<And>a. sound P (f a)"
  shows "sound P (andThen m f)"
proof (rule soundI)
  fix s r s' assume a: "andThen m f s = (r, s')"
  then show "evolves P s s'"
  proof (cases rule: andThen_cases)
    case (fails e)
    then show ?thesis using soundD(1)[OF assms(1)] by blast
  next
    case (goes a s1)
    then show ?thesis
      using soundD(1)[OF assms(1)] soundD(1)[OF assms(2)] evolves_trans by blast
  qed
next
  fix s e s' assume a: "andThen m f s = (Inl e, s')"
  then show "lib_error e"
  proof (cases rule: andThen_cases)
    case (fails e')
    then show ?thesis using sound_error[OF assms(1)] by blast
  next
    case (goes a s1)
    then show ?thesis using sound_error[OF assms(2)] by blast
  qed
qed

lemma sound_return: "sound P (return a)"
  by (simp add: sound_def return_def evolves_refl)

lemma sound_if: "sound P m \<Longrightarrow> sound P n \<Longrightarrow> sound P (\<lambda>s. if c s then m s else n s)"
  by (simp add: sound_def)

lemma sound_called: "P c \<Longrightarrow> sound P (called c)"
  by (auto simp: sound_def evolves_def called_def split: option.splits)

lemma quiet_fold:
  assumes "\<And>x. quiet P (f x)"
  shows "quiet P (fold f xs)"
  unfolding quiet_def
proof (induction xs)
  case Nil
  show ?case by (simp add: evolves_refl)
next
  case (Cons x xs)
  show ?case
  proof
    fix s
    have "evolves P s (f x s)" using assms by (simp add: quiet_def)
    moreover have "evolves P (f x s) (fold f xs (f x s))" using Cons by blast
    ultimately show "evolves P s (fold f (x # xs) s)"
      using evolves_trans by fastforce
  qed
qed

subsection \<open>The library calls\<close>

lemma sound_launch: "P (Launch opt h) \<Longrightarrow> sound P (launch opt h)"
  by (auto simp: sound_def evolves_def launch_def andThen_def called_def split: option.splits)

lemma sound_browser_name: "P (BrowserTypeName b) \<Longrightarrow> sound P (browser_name b)"
  by (auto simp: sound_def evolves_def browser_name_def andThen_def called_def
      split: option.splits if_splits)

lemma sound_browser_close: "P (BrowserClose b) \<Longrightarrow> sound P (browser_close b)"
  by (auto simp: sound_def evolves_def browser_close_def andThen_def called_def
      close_pages_where_def split: option.splits)

lemma sound_newContext: "P (NewContext b) \<Longrightarrow> sound P (newContext b)"
  by (auto simp: sound_def evolves_def newContext_def andThen_def called_def
      split: option.splits)

lemma sound_addInitScript: "P (AddInitScript c) \<Longrightarrow> sound P (addInitScript c)"
  by (simp add: addInitScript_def sound_called)

lemma sound_context_close: "P (ContextClose c) \<Longrightarrow> sound P (context_close c)"
  by (auto simp: sound_def evolves_def context_close_def andThen_def called_def
      close_pages_where_def split: option.splits)

lemma sound_newPage: "P (NewPage c) \<Longrightarrow> sound P (newPage c)"
  by (auto simp: sound_def evolves_def newPage_def andThen_def called_def nth_append
      split: option.splits)

lemma sound_route: "P (Route p) \<Longrightarrow> sound P (route p)"
  by (simp add: route_def sound_called)

lemma closed_list_update:
  "q < length ps \<Longrightarrow> pageClosed (ps ! q)
     \<Longrightarrow> pageClosed (ps[p := (ps ! p)\<lparr>pageClosed := True\<rparr>] ! q)"
  by (cases "p = q") simp_all

lemma sound_page_close: "P (PageClose p) \<Longrightarrow> sound P (page_close p)"
  by (auto simp: sound_def evolves_def page_close_def andThen_def called_def closed_list_update
      split: option.splits)

lemma sound_page_isClosed: "P (PageIsClosed p) \<Longrightarrow> sound P (page_isClosed p)"
  by (auto simp: sound_def evolves_def page_isClosed_def andThen_def called_def
      split: option.splits if_splits)

lemma sound_page_context: "P (PageContext p) \<Longrightarrow> sound P (page_context p)"
  by (auto simp: sound_def evolves_def page_context_def andThen_def called_def
      split: option.splits if_splits)

lemma sound_goto: "P (Goto p url) \<Longrightarrow> sound P (goto p url)"
  by (simp add: goto_def sound_called)

lemma sound_evaluate: "P (Evaluate p) \<Longrightarrow> sound P (evaluate p)"
  by (auto simp: sound_def evolves_def evaluate_def called_def split: option.splits)

lemma sound_fill: "P (Fill p sel v) \<Longrightarrow> sound P (fill p sel v)"
  by (simp add: fill_def sound_called)

lemma sound_click: "P (Click p sel) \<Longrightarrow> sound P (click p sel)"
  by (simp add: click_def sound_called)

lemma sound_press: "P (Press p k) \<Longrightarrow> sound P (press p k)"
  by (simp add: press_def sound_called)

lemma sound_waitForLoadState: "P (WaitForLoadState p) \<Longrightarrow> sound P (waitForLoadState p)"
  by (simp add: waitForLoadState_def sound_called)

subsection \<open>The manager's operations\<close>

lemma evolves_manager_update:
  "evolves P s (s1\<lparr>pagePool := pp\<rparr>) = evolves P s s1"
  "evolves P s (s1\<lparr>contextPool := cp\<rparr>) = evolves P s s1"
  "evolves P s (s1\<lparr>isInitialized := i\<rparr>) = evolves P s s1"
  "evolves P s (s1\<lparr>browser := b\<rparr>) = evolves P s s1"
  "evolves P s (s1\<lparr>browserType := bt\<rparr>) = evolves P s s1"
  "evolves P s (s1\<lparr>shouldUseHeadless := h\<rparr>) = evolves P s s1"
  "evolves P s (s1\<lparr>selectedBrowserOption := opt\<rparr>) = evolves P s s1"
  "evolves P s (s1\<lparr>browserObjs := bs\<rparr>) = evolves P s s1"
  "evolves P (s\<lparr>pagePool := pp\<rparr>) s1 = evolves P s s1"
  "evolves P (s\<lparr>contextPool := cp\<rparr>) s1 = evolves P s s1"
  "evolves P (s\<lparr>isInitialized := i\<rparr>) s1 = evolves P s s1"
  "evolves P (s\<lparr>browser := b\<rparr>) s1 = evolves P s s1"
  "evolves P (s\<lparr>browserType := bt\<rparr>) s1 = evolves P s s1"
  "evolves P (s\<lparr>shouldUseHeadless := h\<rparr>) s1 = evolves P s s1"
  "evolves P (s\<lparr>selectedBrowserOption := opt\<rparr>) s1 = evolves P s s1"
  "evolves P (s\<lparr>browserObjs := bs\<rparr>) s1 = evolves P s s1"
  by (simp_all add: evolves_def)

lemma sound_this_browser: "sound P this_browser"
  by (simp add: sound_def this_browser_def evolves_refl split: option.splits)

lemma quiet_releasePage: "quiet releases (releasePage V pageId)"
  unfolding quiet_def
proof
  fix s :: "'a manager"
  show "evolves releases s (releasePage V pageId s)"
  proof (cases "map_of (pagePool s) pageId")
    case None
    then show ?thesis by (simp add: releasePage_def evolves_refl)
  next
    case (Some pageInfo)
    obtain r s1 where c: "page_close (entryPage V pageInfo) s = (r, s1)"
      by (cases "page_close (entryPage V pageInfo) s")
    have "evolves releases s s1"
      using soundD(1)[OF sound_page_close c, of releases] by simp
    then show ?thesis using Some c by (simp add: releasePage_def evolves_manager_update)
  qed
qed

lemma quiet_release_step:
  "quiet releases
     (\<lambda>s'. case page_context (entryPage V pageInfo) s' of
             (Inr c, s'') \<Rightarrow> if c = ctx then releasePage V pageId s'' else s''
           | (Inl e, s'') \<Rightarrow> releasePage V pageId s'')"
  unfolding quiet_def
proof
  fix s' :: "'a manager"
  obtain r s'' where c: "page_context (entryPage V pageInfo) s' = (r, s'')"
    by (cases "page_context (entryPage V pageInfo) s'")
  have e1: "evolves releases s' s''"
    using soundD(1)[OF sound_page_context c, of releases] by simp
  have e2: "evolves releases s'' (releasePage V pageId s'')"
    using quiet_releasePage[of V pageId] unfolding quiet_def by blast
  show "evolves releases s'
          (case page_context (entryPage V pageInfo) s' of
             (Inr c, s'') \<Rightarrow> if c = ctx then releasePage V pageId s'' else s''
           | (Inl e, s'') \<Rightarrow> releasePage V pageId s'')"
    using e1 evolves_trans[OF e1 e2] c by (cases r) simp_all
qed

lemma quiet_releaseContext: "quiet releases (releaseContext V ctxId)"
  unfolding quiet_def
proof
  fix s :: "'a manager"
  show "evolves releases s (releaseContext V ctxId s)"
  proof (cases "map_of (contextPool s) ctxId")
    case None
    then show ?thesis by (simp add: releaseContext_def evolves_refl)
  next
    case (Some ctx)
    let ?f = "\<lambda>(pageId, pageInfo) s'.
                case page_context (entryPage V pageInfo) s' of
                  (Inr c, s'') \<Rightarrow> if c = ctx then releasePage V pageId s'' else s''
                | (Inl e, s'') \<Rightarrow> releasePage V pageId s''"
    have step: "quiet releases (?f x)" for x
    proof (cases x)
      case (Pair pageId pageInfo)
      then show ?thesis
        using quiet_release_step[where V = V and pageInfo = pageInfo and ctx = ctx
            and pageId = pageId]
        by simp
    qed
    let ?s1 = "fold ?f (pagePool s) s"
    have e1: "evolves releases s ?s1"
      using quiet_fold[of releases ?f, OF step] by (simp add: quiet_def)
    obtain r s2 where c: "context_close ctx ?s1 = (r, s2)"
      by (cases "context_close ctx ?s1")
    have e2: "evolves releases ?s1 s2"
      using soundD(1)[OF sound_context_close c, of releases] by simp
    show ?thesis
      using evolves_trans[OF e1 e2] Some c
      by (simp add: releaseContext_def evolves_manager_update)
  qed
qed

lemma releases_manages: "releases c \<Longrightarrow> manages c"
  by (cases c) simp_all

lemma closeAll_folds:
  "evolves releases s
     (fold (releaseContext V)
        (map fst (contextPool (fold (releasePage V) (map fst (pagePool s)) s)))
        (fold (releasePage V) (map fst (pagePool s)) s))"
proof -
  let ?s1 = "fold (releasePage V) (map fst (pagePool s)) s"
  have "evolves releases s ?s1"
    using quiet_fold[of releases "releasePage V", OF quiet_releasePage] by (simp add: quiet_def)
  moreover have "evolves releases ?s1 (fold (releaseContext V) (map fst (contextPool ?s1)) ?s1)"
    using quiet_fold[of releases "releaseContext V", OF quiet_releaseContext]
    by (simp add: quiet_def)
  ultimately show ?thesis by (rule evolves_trans)
qed

lemma sound_closeAll: "sound manages (closeAll V)"
proof (rule soundI)
  fix s :: "'a manager" and r s'
  assume a: "closeAll V s = (r, s')"
  let ?s2 = "fold (releaseContext V)
        (map fst (contextPool (fold (releasePage V) (map fst (pagePool s)) s)))
        (fold (releasePage V) (map fst (pagePool s)) s)"
  have e: "evolves manages s ?s2"
    using evolves_mono[OF closeAll_folds releases_manages] .
  show "evolves manages s s'"
  proof (cases "browser ?s2")
    case None
    with a e show ?thesis by (simp add: closeAll_def Let_def)
  next
    case (Some b)
    with a have "andThen (browser_close b) (\<lambda>_ s3. (Inr (), s3\<lparr>isInitialized := False\<rparr>)) ?s2
                   = (r, s')"
      by (simp add: closeAll_def Let_def)
    then have "evolves manages ?s2 s'"
    proof (cases rule: andThen_cases)
      case (fails e)
      then show ?thesis using soundD(1)[OF sound_browser_close, of manages] by simp
    next
      case (goes u s3)
      then show ?thesis
        using soundD(1)[OF sound_browser_close, of manages b ?s2 "Inr u" s3]
        by (auto simp: evolves_manager_update)
    qed
    with e show ?thesis by (rule evolves_trans)
  qed
next
  fix s :: "'a manager" and e s'
  assume a: "closeAll V s = (Inl e, s')"
  let ?s2 = "fold (releaseContext V)
        (map fst (contextPool (fold (releasePage V) (map fst (pagePool s)) s)))
        (fold (releasePage V) (map fst (pagePool s)) s)"
  show "lib_error e"
  proof (cases "browser ?s2")
    case None
    with a show ?thesis by (simp add: closeAll_def Let_def)
  next
    case (Some b)
    with a have "andThen (browser_close b) (\<lambda>_ s3. (Inr (), s3\<lparr>isInitialized := False\<rparr>)) ?s2
                   = (Inl e, s')"
      by (simp add: closeAll_def Let_def)
    then show ?thesis
    proof (cases rule: andThen_cases)
      case (fails e')
      then show ?thesis using sound_error[OF sound_browser_close, of manages] by simp
    next
      case (goes u s3)
      then show ?thesis by simp
    qed
  qed
qed

lemma sound_launchSelected: "sound manages launchSelected"
proof (rule soundI)
  fix s :: "'a manager" and r s'
  assume a: "launchSelected s = (r, s')"
  show "evolves manages s s'"
  proof (cases "isInitialized s")
    case True
    with a show ?thesis by (auto simp: launchSelected_def evolves_manager_update evolves_refl)
  next
    case False
    with a have "andThen
             (\<lambda>s1. launch (selectedBrowserOption s1) (shouldUseHeadless s1)
                      (s1\<lparr>browserType :=
                            Some (case selectedBrowserOption s1 of
                                    firefox \<Rightarrow> firefox
                                  | webkit \<Rightarrow> webkit
                                  | chromium \<Rightarrow> chromium)\<rparr>))
             (\<lambda>b s2.
                (Inr (Some b),
                 s2\<lparr>browser := Some b,
                    browserObjs := (browserObjs s2)
                      [b := (browserObjs s2 ! b)
                         \<lparr>instanceId := Some (string_of_nat (dateNow s2 (length (trace s2))))\<rparr>],
                    isInitialized := True\<rparr>))
             s = (r, s')"
      by (simp add: launchSelected_def)
    then show ?thesis
    proof (cases rule: andThen_cases)
      case (fails e)
      then show ?thesis
        using soundD(1)[OF sound_launch fails(1), of manages]
        by (simp add: evolves_manager_update)
    next
      case (goes b s1)
      then show ?thesis
        using soundD(1)[OF sound_launch goes(1), of manages]
        by (auto simp: evolves_manager_update)
    qed
  qed
next
  fix s :: "'a manager" and e s'
  assume a: "launchSelected s = (Inl e, s')"
  show "lib_error e"
  proof (cases "isInitialized s")
    case True
    with a show ?thesis by (simp add: launchSelected_def)
  next
    case False
    with a have "andThen
             (\<lambda>s1. launch (selectedBrowserOption s1) (shouldUseHeadless s1)
                      (s1\<lparr>browserType :=
                            Some (case selectedBrowserOption s1 of
                                    firefox \<Rightarrow> firefox
                                  | webkit \<Rightarrow> webkit
                                  | chromium \<Rightarrow> chromium)\<rparr>))
             (\<lambda>b s2.
                (Inr (Some b),
                 s2\<lparr>browser := Some b,
                    browserObjs := (browserObjs s2)
                      [b := (browserObjs s2 ! b)
                         \<lparr>instanceId := Some (string_of_nat (dateNow s2 (length (trace s2))))\<rparr>],
                    isInitialized := True\<rparr>))
             s = (Inl e, s')"
      by (simp add: launchSelected_def)
    then show ?thesis
    proof (cases rule: andThen_cases)
      case (fails e')
      then show ?thesis using sound_error[OF sound_launch, of manages] by simp
    next
      case (goes b s1)
      then show ?thesis by simp
    qed
  qed
qed

lemma sound_after_update:
  assumes "sound P m" "\<And>s. evolves P s (g s)"
  shows "sound P (\<lambda>s. m (g s))"
proof (rule soundI)
  fix s r s' assume "m (g s) = (r, s')"
  then show "evolves P s s'"
    using soundD(1)[OF assms(1)] assms(2) evolves_trans by blast
next
  fix s e s' assume "m (g s) = (Inl e, s')"
  then show "lib_error e" using sound_error[OF assms(1)] by blast
qed

lemma sound_pure:
  assumes "\<And>s. evolves P s (g s)"
  shows "sound P (\<lambda>s. (Inr (h s), g s))"
  using assms by (simp add: sound_def)

lemma sound_initializeBrowser: "sound manages (initializeBrowser V)"
proof -
  have relaunch: "sound manages
      (andThen (closeAll V) (\<lambda>_ s2. launchSelected (s2\<lparr>isInitialized := False\<rparr>)))"
    by (intro sound_andThen sound_closeAll sound_after_update[OF sound_launchSelected])
      (simp add: evolves_manager_update evolves_refl)
  have same: "sound manages (\<lambda>s1 :: 'a manager. (Inr (browser s1), s1))"
    by (simp add: sound_def evolves_refl)
  have inner: "sound manages
      (\<lambda>s1. if currentBrowserName \<noteq> selectedBrowserOption s1
             then andThen (closeAll V)
                    (\<lambda>_ s2. launchSelected (s2\<lparr>isInitialized := False\<rparr>)) s1
             else (Inr (browser s1), s1))" for currentBrowserName
    using sound_if[OF relaunch same, of "\<lambda>s1. currentBrowserName \<noteq> selectedBrowserOption s1"]
    .
  have outer: "sound manages
      (andThen this_browser
             (\<lambda>b. andThen (browser_name b)
                (\<lambda>currentBrowserName s1.
                   if currentBrowserName \<noteq> selectedBrowserOption s1
                   then andThen (closeAll V)
                          (\<lambda>_ s2. launchSelected (s2\<lparr>isInitialized := False\<rparr>)) s1
                   else (Inr (browser s1), s1))))"
    by (intro sound_andThen sound_this_browser sound_browser_name inner) simp
  have "initializeBrowser V = (\<lambda>s. if isInitialized s
      then andThen this_browser
             (\<lambda>b. andThen (browser_name b)
                (\<lambda>currentBrowserName s1.
                   if currentBrowserName \<noteq> selectedBrowserOption s1
                   then andThen (closeAll V)
                          (\<lambda>_ s2. launchSelected (s2\<lparr>isInitialized := False\<rparr>)) s1
                   else (Inr (browser s1), s1))) s
      else launchSelected s)"
    by (rule ext) (simp add: initializeBrowser_def)
  then show ?thesis
    using sound_if[OF outer sound_launchSelected, of isInitialized] by simp
qed

lemma sound_init: "sound manages (init V headless browserOption)"
proof -
  have "init V headless browserOption
          = (\<lambda>s. initializeBrowser V (setConfig headless browserOption s))"
    by (rule ext) (simp add: init_def)
  then show ?thesis
    using sound_after_update[OF sound_initializeBrowser,
        of "setConfig headless browserOption" V]
    by (simp add: setConfig_def evolves_manager_update evolves_refl)
qed

subsection \<open>Contexts and pages\<close>

lemma sound_ensureInitialized:
  "sound manages (\<lambda>s. if \<not> isInitialized s
                        then andThen (initializeBrowser V) (\<lambda>_. return ()) s
                        else return () s)"
proof (rule sound_if)
  show "sound manages (andThen (initializeBrowser V) (\<lambda>_. return ()))"
    by (intro sound_andThen sound_initializeBrowser sound_return)
  show "sound manages (return ())"
    by (rule sound_return)
qed

lemma sound_newContextFor:
  "sound manages
     (andThen this_browser
        (\<lambda>b. andThen (newContext b)
           (\<lambda>ctx. andThen (addInitScript ctx)
              (\<lambda>_ s'. (Inr (),
                 s'\<lparr>contextPool := AList.update ctxId ctx (contextPool s')\<rparr>)))))"
  by (intro sound_andThen sound_this_browser sound_newContext sound_addInitScript sound_pure)
    (simp_all add: evolves_manager_update evolves_refl)

lemma sound_ensureContext:
  "sound manages
     (\<lambda>s. if map_of (contextPool s) ctxId = None
           then andThen this_browser
                  (\<lambda>b. andThen (newContext b)
                     (\<lambda>ctx. andThen (addInitScript ctx)
                        (\<lambda>_ s'. (Inr (),
                           s'\<lparr>contextPool := AList.update ctxId ctx (contextPool s')\<rparr>))))
                  s
           else return () s)"
proof (rule sound_if)
  show "sound manages
     (andThen this_browser
        (\<lambda>b. andThen (newContext b)
           (\<lambda>ctx. andThen (addInitScript ctx)
              (\<lambda>_ s'. (Inr (),
                 s'\<lparr>contextPool := AList.update ctxId ctx (contextPool s')\<rparr>)))))"
    by (rule sound_newContextFor)
  show "sound manages (return ())"
    by (rule sound_return)
qed

lemma ensureContext_populates:
  assumes "(if map_of (contextPool s) ctxId = None
           then andThen this_browser
                  (\<lambda>b. andThen (newContext b)
                     (\<lambda>ctx. andThen (addInitScript ctx)
                        (\<lambda>_ s'. (Inr (),
                           s'\<lparr>contextPool := AList.update ctxId ctx (contextPool s')\<rparr>))))
                  s
           else return () s) = (Inr u, s')"
  shows "map_of (contextPool s') ctxId \<noteq> None"
proof (cases "map_of (contextPool s) ctxId = None")
  case False
  with assms show ?thesis by (auto simp: return_def)
next
  case True
  with assms have "andThen this_browser
                  (\<lambda>b. andThen (newContext b)
                     (\<lambda>ctx. andThen (addInitScript ctx)
                        (\<lambda>_ s'. (Inr (),
                           s'\<lparr>contextPool := AList.update ctxId ctx (contextPool s')\<rparr>))))
                  s = (Inr u, s')"
    by simp
  then show ?thesis
  proof (cases rule: andThen_cases)
    case (goes b s1)
    from goes(2) show ?thesis
    proof (cases rule: andThen_cases)
      case (goes ctx s2)
      from goes(2) show ?thesis
      proof (cases rule: andThen_cases)
        case (goes v s3)
        then show ?thesis by (auto simp: update_conv')
      qed simp
    qed simp
  qed simp
qed

lemma getOrCreateContext_result:
  assumes "getOrCreateContext V ctxId s = (r, s')"
  shows "evolves manages s s'"
    and "\<And>e. r = Inl e \<Longrightarrow> lib_error e"
    and "\<And>ctx. r = Inr ctx \<Longrightarrow> map_of (contextPool s') ctxId = Some ctx"
proof -
  have "evolves manages s s' \<and> (\<forall>e. r = Inl e \<longrightarrow> lib_error e)
          \<and> (\<forall>ctx. r = Inr ctx \<longrightarrow> map_of (contextPool s') ctxId = Some ctx)"
    using assms unfolding getOrCreateContext_def
  proof (cases rule: andThen_cases)
    case (fails e)
    then show ?thesis
      using soundD(1)[OF sound_ensureInitialized fails(1)]
        sound_error[OF sound_ensureInitialized fails(1)]
      by simp
  next
    case (goes u s1)
    note first = soundD(1)[OF sound_ensureInitialized goes(1)]
    from goes(2) show ?thesis
    proof (cases rule: andThen_cases)
      case (fails e)
      then show ?thesis
        using soundD(1)[OF sound_ensureContext fails(1)]
          sound_error[OF sound_ensureContext fails(1)] evolves_trans[OF first]
        by simp
    next
      case (goes v s2)
      note second = evolves_trans[OF first soundD(1)[OF sound_ensureContext goes(1)]]
      from ensureContext_populates[OF goes(1)]
      obtain c where c: "map_of (contextPool s2) ctxId = Some c" by blast
      with goes(2) have "r = Inr c" "s' = s2" by (simp_all add: return_def)
      with second c show ?thesis by simp
    qed
  qed
  then show "evolves manages s s'"
    and "\<And>e. r = Inl e \<Longrightarrow> lib_error e"
    and "\<And>ctx. r = Inr ctx \<Longrightarrow> map_of (contextPool s') ctxId = Some ctx"
    by blast+
qed

lemma sound_getOrCreateContext: "sound manages (getOrCreateContext V ctxId)"
  using getOrCreateContext_result by (intro soundI) blast+

lemma sound_createPage: "sound manages (createPage V ctxId pageId)"
  unfolding createPage_def
  by (intro sound_andThen sound_getOrCreateContext sound_newPage sound_route sound_return
      sound_pure)
    (simp_all add: evolves_manager_update evolves_refl)

lemma sound_ensureBrowser: "sound manages (ensureBrowser V browserOption)"
proof -
  have a: "sound manages (andThen (init V True browserOption) (\<lambda>_. return ()))"
    by (intro sound_andThen sound_init sound_return)
  have inner: "sound manages
     (if name \<noteq> browserOption
      then andThen (init V True browserOption) (\<lambda>_. return ())
      else return ())" for name
    by (simp add: a sound_return)
  have b: "sound manages
     (andThen this_browser
        (\<lambda>b. andThen (browser_name b)
           (\<lambda>name. if name \<noteq> browserOption
                    then andThen (init V True browserOption) (\<lambda>_. return ())
                    else return ())))"
    by (intro sound_andThen sound_this_browser sound_browser_name inner) simp
  have "ensureBrowser V browserOption =
     (\<lambda>s. if \<not> isInitialized s
      then andThen (init V True browserOption) (\<lambda>_. return ()) s
      else andThen this_browser
             (\<lambda>b. andThen (browser_name b)
                (\<lambda>name. if name \<noteq> browserOption
                         then andThen (init V True browserOption) (\<lambda>_. return ())
                         else return ()))
             s)"
    by (rule ext) (simp add: ensureBrowser_def)
  then show ?thesis
    using sound_if[OF a b, of "\<lambda>s. \<not> isInitialized s"] by simp
qed

lemma sound_existingOrNewPage: "sound manages (existingOrNewPage V ctxId pageId)"
proof -
  have inner: "sound manages
      (if \<not> closed then return existingPage else createPage V ctxId pageId)"
    for closed existingPage
    by (simp add: sound_createPage sound_return)
  have b: "sound manages
      (andThen (page_isClosed existingPage)
         (\<lambda>closed. if \<not> closed then return existingPage
                    else createPage V ctxId pageId))" for existingPage
    by (intro sound_andThen sound_page_isClosed inner) simp
  show ?thesis
  proof (rule soundI)
    fix s :: "'a manager" and r s'
    assume "existingOrNewPage V ctxId pageId s = (r, s')"
    then show "evolves manages s s'"
      using soundD(1)[OF sound_createPage] soundD(1)[OF b]
      by (auto simp: existingOrNewPage_def split: option.splits)
  next
    fix s :: "'a manager" and e s'
    assume "existingOrNewPage V ctxId pageId s = (Inl e, s')"
    then show "lib_error e"
      using sound_error[OF sound_createPage] sound_error[OF b]
      by (auto simp: existingOrNewPage_def split: option.splits)
  qed
qed

subsection \<open>Teardown\<close>

lemma delete_absent: "map_of al k = None \<Longrightarrow> AList.delete k al = al"
  by (induction al) (auto split: if_splits)

lemma filter_delete:
  "filter (\<lambda>e. fst e \<notin> set ks) (AList.delete k al) = filter (\<lambda>e. fst e \<notin> set (k # ks)) al"
  by (induction al) auto

lemma page_close_manager:
  assumes "page_close p s = (r, s1)"
  shows "pagePool s1 = pagePool s" "contextPool s1 = contextPool s"
    "browsers_view s1 = browsers_view s"
  using assms
  by (auto simp: page_close_def andThen_def called_def browsers_view_def split: option.splits)

lemma page_context_manager:
  assumes "page_context p s = (r, s1)"
  shows "pagePool s1 = pagePool s" "contextPool s1 = contextPool s"
    "browsers_view s1 = browsers_view s"
  using assms
  by (auto simp: page_context_def andThen_def called_def browsers_view_def
      split: option.splits if_splits)

lemma context_close_manager:
  assumes "context_close c s = (r, s1)"
  shows "pagePool s1 = pagePool s" "contextPool s1 = contextPool s"
    "browsers_view s1 = browsers_view s"
  using assms
  by (auto simp: context_close_def andThen_def called_def browsers_view_def comp_def
      split: option.splits)

lemma releasePage_manager:
  "pagePool (releasePage V pageId s) = AList.delete pageId (pagePool s)"
  "contextPool (releasePage V pageId s) = contextPool s"
  "browsers_view (releasePage V pageId s) = browsers_view s"
proof -
  have "pagePool (releasePage V pageId s) = AList.delete pageId (pagePool s)
      \<and> contextPool (releasePage V pageId s) = contextPool s
      \<and> browsers_view (releasePage V pageId s) = browsers_view s"
  proof (cases "map_of (pagePool s) pageId")
    case None
    then show ?thesis by (simp add: releasePage_def delete_absent)
  next
    case (Some pageInfo)
    obtain r s1 where c: "page_close (entryPage V pageInfo) s = (r, s1)"
      by (cases "page_close (entryPage V pageInfo) s")
    from page_close_manager[OF c] Some c show ?thesis
      by (simp add: releasePage_def browsers_view_def)
  qed
  then show "pagePool (releasePage V pageId s) = AList.delete pageId (pagePool s)"
    "contextPool (releasePage V pageId s) = contextPool s"
    "browsers_view (releasePage V pageId s) = browsers_view s"
    by simp_all
qed

lemma fold_releasePage_manager:
  "pagePool (fold (releasePage V) ks s) = filter (\<lambda>e. fst e \<notin> set ks) (pagePool s)
   \<and> contextPool (fold (releasePage V) ks s) = contextPool s
   \<and> browsers_view (fold (releasePage V) ks s) = browsers_view s"
proof (induction ks arbitrary: s)
  case Nil
  show ?case by simp
next
  case (Cons k ks)
  have "filter (\<lambda>e. fst e \<notin> set ks) (AList.delete k (pagePool s))
          = filter (\<lambda>e. fst e \<notin> set (k # ks)) (pagePool s)"
    by (rule filter_delete)
  then show ?case
    using Cons[of "releasePage V k s"] by (simp add: releasePage_manager)
qed

lemma releaseContext_manager:
  assumes "pagePool s = []"
  shows "pagePool (releaseContext V ctxId s) = []"
    "contextPool (releaseContext V ctxId s) = AList.delete ctxId (contextPool s)"
    "browsers_view (releaseContext V ctxId s) = browsers_view s"
proof -
  have "pagePool (releaseContext V ctxId s) = []
      \<and> contextPool (releaseContext V ctxId s) = AList.delete ctxId (contextPool s)
      \<and> browsers_view (releaseContext V ctxId s) = browsers_view s"
  proof (cases "map_of (contextPool s) ctxId")
    case None
    then show ?thesis using assms by (simp add: releaseContext_def delete_absent)
  next
    case (Some ctx)
    obtain r s2 where c: "context_close ctx s = (r, s2)"
      by (cases "context_close ctx s")
    from context_close_manager[OF c] Some c assms show ?thesis
      by (simp add: releaseContext_def browsers_view_def)
  qed
  then show "pagePool (releaseContext V ctxId s) = []"
    "contextPool (releaseContext V ctxId s) = AList.delete ctxId (contextPool s)"
    "browsers_view (releaseContext V ctxId s) = browsers_view s"
    by simp_all
qed

lemma fold_releaseContext_manager:
  "pagePool s = [] \<Longrightarrow>
   pagePool (fold (releaseContext V) ks s) = []
   \<and> contextPool (fold (releaseContext V) ks s) = filter (\<lambda>e. fst e \<notin> set ks) (contextPool s)
   \<and> browsers_view (fold (releaseContext V) ks s) = browsers_view s"
proof (induction ks arbitrary: s)
  case Nil
  then show ?case by simp
next
  case (Cons k ks)
  have "filter (\<lambda>e. fst e \<notin> set ks) (AList.delete k (contextPool s))
          = filter (\<lambda>e. fst e \<notin> set (k # ks)) (contextPool s)"
    by (rule filter_delete)
  then show ?case
    using Cons.IH[of "releaseContext V k s"] releaseContext_manager[OF Cons.prems, of V k]
    by simp
qed

lemma filter_all_keys: "filter (\<lambda>e. fst e \<notin> set (map fst al)) al = []"
  by (induction al) auto

lemma closed_browser:
  "map engine (bs[b := (bs ! b)\<lparr>connectedFlag := False, openContexts := []\<rparr>]) = map engine bs"
  "map connectedFlag (bs[b := (bs ! b)\<lparr>connectedFlag := False, openContexts := []\<rparr>])
     = (map connectedFlag bs)[b := False]"
  by (cases "b < length bs"; auto simp: list_eq_iff_nth_eq nth_list_update)+

lemma released_manager:
  "pagePool (released V s) = []" "contextPool (released V s) = []"
  "browsers_view (released V s) = browsers_view s"
  "evolves releases s (released V s)"
proof -
  let ?s1 = "fold (releasePage V) (map fst (pagePool s)) s"
  have p1: "pagePool ?s1 = []" "browsers_view ?s1 = browsers_view s"
    using fold_releasePage_manager[of V "map fst (pagePool s)" s]
    by (simp_all add: filter_all_keys)
  from fold_releaseContext_manager[OF p1(1), of V "map fst (contextPool ?s1)"] p1(2)
  show "pagePool (released V s) = []" "contextPool (released V s) = []"
    "browsers_view (released V s) = browsers_view s"
    by (simp_all add: released_def filter_all_keys)
  show "evolves releases s (released V s)"
    unfolding released_def by (rule closeAll_folds)
qed

lemma closeAll_released:
  "closeAll V s =
     (case browser s of
        None \<Rightarrow> (Inr (), released V s)
      | Some b \<Rightarrow>
          andThen (browser_close b) (\<lambda>_ s3. (Inr (), s3\<lparr>isInitialized := False\<rparr>))
            (released V s))"
proof -
  have "browser (released V s) = browser s"
    using released_manager(3)[where V = V and s = s] by (simp add: browsers_view_def)
  moreover have "closeAll V s =
     (case browser (released V s) of
        None \<Rightarrow> (Inr (), released V s)
      | Some b \<Rightarrow>
          andThen (browser_close b) (\<lambda>_ s3. (Inr (), s3\<lparr>isInitialized := False\<rparr>))
            (released V s))"
    unfolding closeAll_def Let_def released_def by (rule refl)
  ultimately show ?thesis by simp
qed

lemma closeAll_teardown:
  assumes "closeAll V s = (r, s')" "browser s = Some b"
  shows "\<exists>es. trace s' = trace s @ es @ [BrowserClose b] \<and> list_all releases es"
    and "pagePool s' = []" and "contextPool s' = []"
    and "browser s' = Some b"
    and "selectedBrowserOption s' = selectedBrowserOption s"
    and "shouldUseHeadless s' = shouldUseHeadless s"
    and "\<And>u. r = Inr u \<Longrightarrow> \<not> isInitialized s'
           \<and> map engine (browserObjs s') = map engine (browserObjs s)
           \<and> map connectedFlag (browserObjs s') = (map connectedFlag (browserObjs s))[b := False]"
    and "\<And>e. r = Inl e \<Longrightarrow> browsers_view s' = browsers_view s"
proof -
  let ?s2 = "released V s"
  note m = released_manager[where V = V and s = s]
  from m(4) obtain es where es: "trace ?s2 = trace s @ es" "list_all releases es"
    by (auto simp: evolves_def)
  from assms have run:
    "andThen (browser_close b) (\<lambda>_ s3. (Inr (), s3\<lparr>isInitialized := False\<rparr>)) ?s2 = (r, s')"
    by (simp add: closeAll_released)
  have v: "map engine (browserObjs ?s2) = map engine (browserObjs s)"
    "map connectedFlag (browserObjs ?s2) = map connectedFlag (browserObjs s)"
    "browser ?s2 = browser s" "selectedBrowserOption ?s2 = selectedBrowserOption s"
    "shouldUseHeadless ?s2 = shouldUseHeadless s" "isInitialized ?s2 = isInitialized s"
    using m(3) by (simp_all add: browsers_view_def)
  have all: "(trace s' = trace ?s2 @ [BrowserClose b])
      \<and> pagePool s' = [] \<and> contextPool s' = [] \<and> browser s' = Some b
      \<and> selectedBrowserOption s' = selectedBrowserOption s
      \<and> shouldUseHeadless s' = shouldUseHeadless s
      \<and> (\<forall>u. r = Inr u \<longrightarrow> \<not> isInitialized s'
           \<and> map engine (browserObjs s') = map engine (browserObjs s)
           \<and> map connectedFlag (browserObjs s') = (map connectedFlag (browserObjs s))[b := False])
      \<and> (\<forall>e. r = Inl e \<longrightarrow> browsers_view s' = browsers_view s)"
    using run m(1,2) v assms(2) m(3)
    by (auto simp: andThen_def browser_close_def called_def closed_browser browsers_view_def
        split: option.splits)
  from all es show "\<exists>es. trace s' = trace s @ es @ [BrowserClose b] \<and> list_all releases es"
    by auto
  from all show "pagePool s' = []" "contextPool s' = []" "browser s' = Some b"
    "selectedBrowserOption s' = selectedBrowserOption s"
    "shouldUseHeadless s' = shouldUseHeadless s"
    "\<And>u. r = Inr u \<Longrightarrow> \<not> isInitialized s'
           \<and> map engine (browserObjs s') = map engine (browserObjs s)
           \<and> map connectedFlag (browserObjs s') = (map connectedFlag (browserObjs s))[b := False]"
    "\<And>e. r = Inl e \<Longrightarrow> browsers_view s' = browsers_view s"
    by blast+
qed







lemma browser_name_result:
  assumes "browser_name b s = (r, s1)"
  shows "s1 = s\<lparr>trace := trace s @ [BrowserTypeName b]\<rparr>"
    and "\<And>n. r = Inr n \<Longrightarrow> b < length (browserObjs s) \<and> n = engine (browserObjs s ! b)"
  using assms
  by (auto simp: browser_name_def andThen_def called_def split: option.splits if_splits)





subsection \<open>Claim C7\<close>

text \<open>
  C7. \<open>getBrowserInfo\<close> returns \<open>{status: 'not_initialized'}\<close> exactly when the flag
  \<open>isInitialized\<close> is unset. Otherwise, with \<open>this.browser\<close> a browser \<open>b\<close> of the library:
  when none of its three introspection calls (\<open>contexts()\<close>, \<open>browserType().name()\<close>,
  \<open>isConnected()\<close>) throws, it returns the snapshot with the engine of \<open>b\<close>, the number of
  its open contexts, \<open>isConnected\<close> equal to the negation of the is-connected signal of
  \<open>b\<close>, and the keys of the two pools; when one of the three calls throws, with message
  \<open>m\<close>, it returns \<open>{status: 'error', message: m}\<close>. The method is the same in
  \<open>PlaywrightService\<close> and \<open>PlaywrightManager\<close>: the statement holds for every type \<open>'pi\<close>
  of pool entries.
\<close>

theorem getBrowserInfo_status:
  "(fst (getBrowserInfo s) = NotInitialized) = (\<not> isInitialized s)
   \<and> (isInitialized s \<longrightarrow> browser s = Some b \<longrightarrow> b < length (browserObjs s) \<longrightarrow>
        (faultAt s (length (trace s)) = None \<and> faultAt s (length (trace s) + 1) = None
           \<and> faultAt s (length (trace s) + 2) = None \<longrightarrow>
         fst (getBrowserInfo s)
           = Initialized (engine (browserObjs s ! b))
               (length (openContexts (browserObjs s ! b)))
               (\<not> connectedFlag (browserObjs s ! b))
               (map fst (contextPool s)) (map fst (pagePool s)))
        \<and> (\<forall>m. faultAt s (length (trace s)) = Some m
                \<or> faultAt s (length (trace s)) = None
                    \<and> faultAt s (length (trace s) + 1) = Some m
                \<or> faultAt s (length (trace s)) = None
                    \<and> faultAt s (length (trace s) + 1) = None
                    \<and> faultAt s (length (trace s) + 2) = Some m
                \<longrightarrow> fst (getBrowserInfo s) = InfoError m))"
  by (auto simp: getBrowserInfo_def andThen_def this_browser_def browser_contexts_def
      browser_name_def browser_isConnected_def called_def
      split: prod.splits sum.splits option.splits if_splits)

text \<open>
  A new \<open>PlaywrightService\<close> reports \<open>not_initialized\<close>; after \<open>init(true, 'firefox')\<close> it
  reports the engine \<open>firefox\<close>, no context, and \<open>isConnected = false\<close> although the browser
  is connected; a \<open>PlaywrightManager\<close> whose call \<open>browserType().name()\<close> throws reports the
  error.
\<close>

theorem getBrowserInfo_status_witness:
  "fst (getBrowserInfo (fresh_manager :: PageInfo manager)) = NotInitialized
   \<and> fst (getBrowserInfo (launched PlaywrightService firefox (\<lambda>n. None)))
       = Initialized firefox 0 False [] []
   \<and> fst (getBrowserInfo
             (launched PlaywrightManager webkit (\<lambda>n. if n = 2 then Some ''Target closed'' else None)))
       = InfoError ''Target closed''"
proof -
  let ?s0 = "fresh_manager :: PageInfo manager"
  let ?s1 = "launched PlaywrightService firefox (\<lambda>n. None)"
  let ?s2 = "launched PlaywrightManager webkit (\<lambda>n. if n = 2 then Some ''Target closed'' else None)"
  have f0: "\<not> isInitialized ?s0"
    by (simp add: fresh_manager_def new_manager_def)
  have f1: "isInitialized ?s1" "browser ?s1 = Some 0" "0 < length (browserObjs ?s1)"
    "faultAt ?s1 (length (trace ?s1)) = None" "faultAt ?s1 (length (trace ?s1) + 1) = None"
    "faultAt ?s1 (length (trace ?s1) + 2) = None"
    "engine (browserObjs ?s1 ! 0) = firefox" "openContexts (browserObjs ?s1 ! 0) = []"
    "connectedFlag (browserObjs ?s1 ! 0)" "contextPool ?s1 = []" "pagePool ?s1 = []"
    by (simp_all add: launched_def new_manager_def lib_defs manager_defs)
  have f2: "isInitialized ?s2" "browser ?s2 = Some 0" "0 < length (browserObjs ?s2)"
    "faultAt ?s2 (length (trace ?s2)) = None"
    "faultAt ?s2 (length (trace ?s2) + 1) = Some ''Target closed''"
    by (simp_all add: launched_def new_manager_def lib_defs manager_defs)
  from getBrowserInfo_status[of ?s0 0] f0
  have a: "fst (getBrowserInfo ?s0) = NotInitialized" by blast
  from getBrowserInfo_status[of ?s1 0] f1
  have b: "fst (getBrowserInfo ?s1) = Initialized firefox 0 False [] []" by simp
  from getBrowserInfo_status[of ?s2 0] f2
  have c: "fst (getBrowserInfo ?s2) = InfoError ''Target closed''" by blast
  from a b c show ?thesis by (intro conjI)
qed

subsection \<open>Claim C10\<close>

text \<open>
  C10. For every \<open>contextId\<close>, in every state and in both classes, \<open>getOrCreateContext\<close>
  never throws its error \<open>Failed to create or get context with ID: ...\<close>: every error
  that it throws is an error of the platform, thrown by \<open>initializeBrowser\<close>, \<open>newContext\<close>
  or \<open>addInitScript\<close>; and whenever it returns a context, the pool maps \<open>contextId\<close> to
  that context (with a context just created the pool was populated before the lookup).
\<close>

theorem getOrCreateContext_never_construction_error:
  "fst (getOrCreateContext V ctxId s) \<noteq> Inl (ContextError x)
   \<and> (\<forall>e. fst (getOrCreateContext V ctxId s) = Inl e
          \<longrightarrow> (\<exists>m. e = PlaywrightError m \<or> e = TypeError m))
   \<and> (\<forall>ctx. fst (getOrCreateContext V ctxId s) = Inr ctx
          \<longrightarrow> map_of (contextPool (snd (getOrCreateContext V ctxId s))) ctxId = Some ctx)"
proof -
  obtain r s' where run: "getOrCreateContext V ctxId s = (r, s')"
    by (cases "getOrCreateContext V ctxId s")
  have le: "\<exists>m. e = PlaywrightError m \<or> e = TypeError m" if "lib_error e" for e
    using that by (cases e) simp_all
  from getOrCreateContext_result(2)[OF run] have "r \<noteq> Inl (ContextError x)" by auto
  moreover from getOrCreateContext_result(2)[OF run] le
  have "\<forall>e. r = Inl e \<longrightarrow> (\<exists>m. e = PlaywrightError m \<or> e = TypeError m)" by blast
  moreover from getOrCreateContext_result(3)[OF run]
  have "\<forall>ctx. r = Inr ctx \<longrightarrow> map_of (contextPool s') ctxId = Some ctx" by blast
  ultimately show ?thesis using run by simp
qed

text \<open>On a new object of either class the context is created and found in the pool.\<close>

theorem getOrCreateContext_never_construction_error_witness:
  "fst (getOrCreateContext PlaywrightService ''session'' fresh_manager) = Inr 0
   \<and> map_of (contextPool (snd (getOrCreateContext PlaywrightService ''session'' fresh_manager)))
         ''session'' = Some 0
   \<and> fst (getOrCreateContext PlaywrightManager ''session'' fresh_manager) = Inr 0
   \<and> map_of (contextPool (snd (getOrCreateContext PlaywrightManager ''session'' fresh_manager)))
         ''session'' = Some 0"
proof -
  have a: "fst (getOrCreateContext PlaywrightService ''session'' fresh_manager) = Inr 0"
    by (simp add: fresh_manager_def new_manager_def lib_defs manager_defs)
  have b: "fst (getOrCreateContext PlaywrightManager ''session'' fresh_manager) = Inr 0"
    by (simp add: fresh_manager_def new_manager_def lib_defs manager_defs)
  from getOrCreateContext_never_construction_error[of PlaywrightService "''session''"
      fresh_manager] a
  have a': "map_of (contextPool (snd (getOrCreateContext PlaywrightService ''session''
              fresh_manager))) ''session'' = Some 0"
    by blast
  from getOrCreateContext_never_construction_error[of PlaywrightManager "''session''"
      fresh_manager] b
  have b': "map_of (contextPool (snd (getOrCreateContext PlaywrightManager ''session''
              fresh_manager))) ''session'' = Some 0"
    by blast
  from a a' b b' show ?thesis by (intro conjI)
qed

subsection \<open>The login of an authenticated session\<close>

lemma manages_not_form_input: "manages c \<Longrightarrow> \<not> form_input c"
  by (cases c) simp_all

lemma coupang_detection:
  assumes "\<forall>n. \<not> loginFormAt s n"
    and "andThen (goto p url)
           (\<lambda>_. andThen (evaluate p)
              (\<lambda>isLoginPage. if \<not> isLoginPage then return p else K)) s = (r, s')"
  shows "(trace s' = trace s @ [Goto p url] \<and> (\<exists>e. r = Inl e))
       \<or> (trace s' = trace s @ [Goto p url, Evaluate p] \<and> (r = Inr p \<or> (\<exists>e. r = Inl e)))"
  using assms(2)
proof (cases rule: andThen_cases)
  case (fails e)
  then show ?thesis by (auto simp: goto_def called_def split: option.splits)
next
  case (goes u s1)
  from goes(1) have t1: "trace s1 = trace s @ [Goto p url]" "loginFormAt s1 = loginFormAt s"
    by (auto simp: goto_def called_def split: option.splits)
  from goes(2) show ?thesis
  proof (cases rule: andThen_cases)
    case (fails e)
    then show ?thesis using t1 by (auto simp: evaluate_def called_def split: option.splits)
  next
    case (goes isLoginPage s2)
    from goes(1) t1 assms(1) have "\<not> isLoginPage" "trace s2 = trace s @ [Goto p url, Evaluate p]"
      by (auto simp: evaluate_def called_def split: option.splits)
    with goes(2) show ?thesis by (auto simp: return_def)
  qed
qed

lemma coupang_body:
  assumes "\<forall>n. \<not> loginFormAt s n"
    and "andThen (ensureBrowser V browserOption)
             (\<lambda>_. andThen (existingOrNewPage V ctxId pageId)
                (\<lambda>p. andThen (goto p url)
                   (\<lambda>_. andThen (evaluate p)
                      (\<lambda>isLoginPage. if \<not> isLoginPage then return p else K p))))
             s = (r, s')"
  shows "\<exists>es. trace s' = trace s @ es \<and> (\<forall>c\<in>set es. \<not> form_input c)
              \<and> (\<forall>p. r = Inr p \<longrightarrow> es \<noteq> [] \<and> last es = Evaluate p)"
proof -
  have quiet_part: "\<exists>es. trace s1 = trace s0 @ es \<and> (\<forall>c\<in>set es. \<not> form_input c)"
    if "evolves manages s0 s1" for s0 s1 :: "'a manager"
    using that manages_not_form_input unfolding evolves_def list_all_iff by blast
  from assms(2) show ?thesis
  proof (cases rule: andThen_cases)
    case (fails e)
    then show ?thesis
      using quiet_part[OF soundD(1)[OF sound_ensureBrowser fails(1)]] by auto
  next
    case (goes u s1)
    note e1 = soundD(1)[OF sound_ensureBrowser goes(1)]
    from goes(2) show ?thesis
    proof (cases rule: andThen_cases)
      case (fails e)
      then show ?thesis
        using quiet_part[OF evolves_trans[OF e1 soundD(1)[OF sound_existingOrNewPage fails(1)]]]
        by auto
    next
      case (goes p s2)
      note e2 = evolves_trans[OF e1 soundD(1)[OF sound_existingOrNewPage goes(1)]]
      from quiet_part[OF e2] obtain es where
        es: "trace s2 = trace s @ es" "\<forall>c\<in>set es. \<not> form_input c" by blast
      from e2 assms(1) have "\<forall>n. \<not> loginFormAt s2 n" by (simp add: evolves_def)
      from coupang_detection[OF this goes(2)]
      show ?thesis
      proof
        assume a: "trace s' = trace s2 @ [Goto p url] \<and> (\<exists>e. r = Inl e)"
        show ?thesis
          using a es by (intro exI[of _ "es @ [Goto p url]"]) auto
      next
        assume a: "trace s' = trace s2 @ [Goto p url, Evaluate p]
                     \<and> (r = Inr p \<or> (\<exists>e. r = Inl e))"
        show ?thesis
          using a es by (intro exI[of _ "es @ [Goto p url, Evaluate p]"]) auto
      qed
    qed
  qed
qed

subsection \<open>Claim C8\<close>

text \<open>
  C8. In \<open>loginToCoupangSite\<close>, in both classes (\<open>V\<close> is the variant) and from every state:
  when the login-form detector finds no element matching \<open>.cp-loginpage__bg\<close>, no call made
  by the method fills a field or presses a key, and when the method returns a page, its
  last call to the library is the detection on that page: it returns immediately after it.
\<close>

theorem loginToCoupangSite_short_circuit:
  assumes "\<forall>n. \<not> loginFormAt s n"
    and "loginToCoupangSite V ctxId pageId browserOption s = (r, s')"
  shows "\<exists>es. trace s' = trace s @ es \<and> (\<forall>c\<in>set es. \<not> form_input c)
              \<and> (\<forall>p. r = Inr p \<longrightarrow> es \<noteq> [] \<and> last es = Evaluate p)"
proof -
  let ?body = "andThen (ensureBrowser V browserOption)
             (\<lambda>_. andThen (existingOrNewPage V ctxId pageId)
                (\<lambda>p. andThen (goto p coupang_login_url)
                   (\<lambda>_. andThen (evaluate p)
                      (\<lambda>isLoginPage.
                         if \<not> isLoginPage then return p
                         else andThen (\<lambda>s'. fill p ''#username''
                                               (configGet s' (coupangEmailKey V)) s')
                                (\<lambda>_. andThen (\<lambda>s'. fill p ''#password''
                                                    (configGet s' (coupangPasswordKey V)) s')
                                   (\<lambda>_. andThen (press p ''Enter'')
                                      (\<lambda>_. if waitsAfterSubmit V
                                            then andThen (waitForLoadState p) (\<lambda>_. return p)
                                            else return p)))))))"
  obtain rb sb where b: "?body s = (rb, sb)" by (cases "?body s")
  from assms(2) b have s': "s' = sb" and r: "\<And>p. r = Inr p \<Longrightarrow> rb = Inr p"
    by (auto simp: loginToCoupangSite_def split: sum.splits)
  from coupang_body[OF assms(1) b] s' r show ?thesis by blast
qed

text \<open>
  On a new object of either class, where the detector finds nothing, the login returns the
  page it created, right after the detection and without any input.
\<close>

theorem loginToCoupangSite_short_circuit_witness:
  "fst (loginToCoupangSite PlaywrightService ''ctx'' ''pg'' chromium fresh_manager)
     = Inr 0
   \<and> \<not> list_ex form_input
         (trace (snd (loginToCoupangSite PlaywrightService ''ctx'' ''pg'' chromium
                        fresh_manager)))
   \<and> last (trace (snd (loginToCoupangSite PlaywrightService ''ctx'' ''pg'' chromium
                          fresh_manager)))
       = Evaluate 0
   \<and> fst (loginToCoupangSite PlaywrightManager ''ctx'' ''pg'' webkit fresh_manager)
       = Inr 0
   \<and> \<not> list_ex form_input
         (trace (snd (loginToCoupangSite PlaywrightManager ''ctx'' ''pg'' webkit
                        fresh_manager)))
   \<and> last (trace (snd (loginToCoupangSite PlaywrightManager ''ctx'' ''pg'' webkit
                          fresh_manager)))
       = Evaluate 0"
proof -
  let ?a = "loginToCoupangSite PlaywrightService ''ctx'' ''pg'' chromium fresh_manager"
  let ?b = "loginToCoupangSite PlaywrightManager ''ctx'' ''pg'' webkit fresh_manager"
  have ha: "\<forall>n. \<not> loginFormAt (fresh_manager :: PageInfo manager) n"
    and hb: "\<forall>n. \<not> loginFormAt (fresh_manager :: ref manager) n"
    and ta: "trace (fresh_manager :: PageInfo manager) = []"
    and tb: "trace (fresh_manager :: ref manager) = []"
    by (simp_all add: fresh_manager_def new_manager_def)
  have ra: "fst ?a = Inr 0"
    by (simp add: fresh_manager_def new_manager_def lib_defs manager_defs
        PlaywrightService_def loginToCoupangSite_def)
  have rb: "fst ?b = Inr 0"
    by (simp add: fresh_manager_def new_manager_def lib_defs manager_defs
        PlaywrightManager_def loginToCoupangSite_def)
  have ea: "?a = (Inr 0, snd ?a)" and eb: "?b = (Inr 0, snd ?b)"
    using ra rb by (simp_all add: prod_eq_iff)
  from loginToCoupangSite_short_circuit[OF ha ea] ta
  obtain es where a: "trace (snd ?a) = es" "\<forall>c\<in>set es. \<not> form_input c" "last es = Evaluate 0"
    by auto
  from loginToCoupangSite_short_circuit[OF hb eb] tb
  obtain es' where b: "trace (snd ?b) = es'" "\<forall>c\<in>set es'. \<not> form_input c"
    "last es' = Evaluate 0"
    by auto
  from a have a': "\<not> list_ex form_input (trace (snd ?a))" "last (trace (snd ?a)) = Evaluate 0"
    by (simp_all add: list_ex_iff)
  from b have b': "\<not> list_ex form_input (trace (snd ?b))" "last (trace (snd ?b)) = Evaluate 0"
    by (simp_all add: list_ex_iff)
  from ra rb a' b' show ?thesis by (intro conjI)
qed

subsection \<open>Claim C5\<close>



subsection \<open>The page that a login works on\<close>

lemma launchSelected_pool:
  assumes "launchSelected s = (r, s')"
  shows "pagePool s' = pagePool s"
  using assms
  by (auto simp: launchSelected_def andThen_def launch_def called_def
      split: option.splits if_splits)

lemma initializeBrowser_pool:
  assumes "initializeBrowser V s = (r, s')"
  shows "pagePool s' = pagePool s \<or> pagePool s' = []"
proof (cases "isInitialized s")
  case False
  with assms launchSelected_pool[of s r s'] show ?thesis by (simp add: initializeBrowser_def)
next
  case True
  show ?thesis
  proof (cases "browser s")
    case None
    with True assms show ?thesis
      by (simp add: initializeBrowser_def andThen_def this_browser_def)
  next
    case (Some a)
    let ?K = "\<lambda>currentBrowserName s1.
                   if currentBrowserName \<noteq> selectedBrowserOption s1
                   then andThen (closeAll V)
                          (\<lambda>_ s2. launchSelected (s2\<lparr>isInitialized := False\<rparr>)) s1
                   else (Inr (browser s1), s1)"
    from True Some assms have "andThen (browser_name a) ?K s = (r, s')"
      by (simp add: initializeBrowser_def andThen_def this_browser_def)
    then show ?thesis
    proof (cases rule: andThen_cases)
      case (fails e)
      from browser_name_result(1)[OF fails(1)] show ?thesis by simp
    next
      case (goes n s1)
      from browser_name_result(1)[OF goes(1)] Some
      have s1: "pagePool s1 = pagePool s" "browser s1 = Some a" by simp_all
      show ?thesis
      proof (cases "n \<noteq> selectedBrowserOption s1")
        case False
        with goes(2) s1 show ?thesis by auto
      next
        case True
        with goes(2) have
          "andThen (closeAll V) (\<lambda>_ s2. launchSelected (s2\<lparr>isInitialized := False\<rparr>)) s1
             = (r, s')" by simp
        then show ?thesis
        proof (cases rule: andThen_cases)
          case (fails e)
          from closeAll_teardown(2)[OF fails(1) s1(2)] show ?thesis by simp
        next
          case (goes u s2)
          from closeAll_teardown(2)[OF goes(1) s1(2)] launchSelected_pool[OF goes(2)]
          show ?thesis by simp
        qed
      qed
    qed
  qed
qed

lemma ensureBrowser_pool:
  assumes "ensureBrowser V browserOption s = (r, s')"
  shows "pagePool s' = pagePool s \<or> pagePool s' = []"
proof -
  have init_pool: "pagePool s2 = pagePool s1 \<or> pagePool s2 = []"
    if "andThen (init V True browserOption) (\<lambda>_. return ()) s1 = (r, s2)"
    for s1 s2 :: "'a manager"
    using that
  proof (cases rule: andThen_cases)
    case (fails e)
    from initializeBrowser_pool[of V "setConfig True browserOption s1" "Inl e" s2] fails(1)
    show ?thesis by (simp add: init_def setConfig_def)
  next
    case (goes b s3)
    from initializeBrowser_pool[of V "setConfig True browserOption s1" "Inr b" s3] goes
    show ?thesis by (simp add: init_def setConfig_def return_def)
  qed
  show ?thesis
  proof (cases "isInitialized s")
    case False
    with assms init_pool[of s s'] show ?thesis by (simp add: ensureBrowser_def)
  next
    case True
    show ?thesis
    proof (cases "browser s")
      case None
      with True assms show ?thesis
        by (simp add: ensureBrowser_def andThen_def this_browser_def)
    next
      case (Some a)
      from True Some assms have
        "andThen (browser_name a)
           (\<lambda>name. if name \<noteq> browserOption
                    then andThen (init V True browserOption) (\<lambda>_. return ())
                    else return ()) s = (r, s')"
        by (simp add: ensureBrowser_def andThen_def this_browser_def)
      then show ?thesis
      proof (cases rule: andThen_cases)
        case (fails e)
        from browser_name_result(1)[OF fails(1)] show ?thesis by simp
      next
        case (goes n s1)
        from browser_name_result(1)[OF goes(1)] have s1: "pagePool s1 = pagePool s" by simp
        show ?thesis
        proof (cases "n \<noteq> browserOption")
          case True
          with goes(2) init_pool[of s1 s'] s1 show ?thesis by simp
        next
          case False
          with goes(2) s1 show ?thesis by (simp add: return_def)
        qed
      qed
    qed
  qed
qed

lemma newPage_registered:
  assumes "andThen (newPage ctx)
             (\<lambda>p. andThen
                (\<lambda>s. (Inr (),
                       s\<lparr>pagePool := AList.update pageId (mkEntry V p ctxId) (pagePool s)\<rparr>))
                (\<lambda>_. andThen (route p) (\<lambda>_. return p))) s = (Inr p, s')"
  shows "p = length (pageObjs s)"
    and "pageObjs s' = pageObjs s @ [\<lparr>ofContext = ctx, pageClosed = False\<rparr>]"
  using assms
  by (auto simp: andThen_def newPage_def route_def called_def return_def split: option.splits)

lemma createPage_fresh:
  assumes "createPage V ctxId pageId s = (Inr p, s')"
  shows "length (pageObjs s) \<le> p" "p < length (pageObjs s')" "\<not> pageClosed (pageObjs s' ! p)"
proof -
  from assms have "length (pageObjs s) \<le> p \<and> p < length (pageObjs s')
      \<and> \<not> pageClosed (pageObjs s' ! p)"
    unfolding createPage_def
  proof (cases rule: andThen_cases)
    case (goes ctx s1)
    from soundD(1)[OF sound_getOrCreateContext goes(1)]
    have "length (pageObjs s) \<le> length (pageObjs s1)" by (simp add: evolves_def)
    with newPage_registered[OF goes(2)] show ?thesis by simp
  qed simp
  then show "length (pageObjs s) \<le> p" "p < length (pageObjs s')"
    "\<not> pageClosed (pageObjs s' ! p)"
    by simp_all
qed

lemma page_isClosed_result:
  assumes "page_isClosed q s = (Inr wasClosed, s1)"
  shows "pageObjs s1 = pageObjs s" "q < length (pageObjs s)"
    "wasClosed = pageClosed (pageObjs s ! q)"
  using assms
  by (auto simp: page_isClosed_def andThen_def called_def split: option.splits if_splits)

lemma page_choice:
  assumes "ensureBrowser V browserOption s = (Inr u, s1)"
    and "existingOrNewPage V ctxId pageId s1 = (Inr p, s2)"
  shows "p < length (pageObjs s2)" "\<not> pageClosed (pageObjs s2 ! p)"
    and "getPage V pageId s = None
          \<or> (\<exists>q. getPage V pageId s = Some q \<and> q < length (pageObjs s)
                   \<and> pageClosed (pageObjs s ! q))
          \<Longrightarrow> length (pageObjs s) \<le> p"
    and "evolves manages s s2"
proof -
  note e1 = soundD(1)[OF sound_ensureBrowser assms(1)]
  note e2 = soundD(1)[OF sound_existingOrNewPage assms(2)]
  show ev: "evolves manages s s2" using e1 e2 by (rule evolves_trans)
  from e1 have l1: "length (pageObjs s) \<le> length (pageObjs s1)"
    and c1: "\<And>q. q < length (pageObjs s) \<Longrightarrow> pageClosed (pageObjs s ! q)
                 \<Longrightarrow> pageClosed (pageObjs s1 ! q)"
    by (simp_all add: evolves_def)
  note pool = ensureBrowser_pool[OF assms(1)]
  have "p < length (pageObjs s2) \<and> \<not> pageClosed (pageObjs s2 ! p)
      \<and> (getPage V pageId s = None
          \<or> (\<exists>q. getPage V pageId s = Some q \<and> q < length (pageObjs s)
                   \<and> pageClosed (pageObjs s ! q))
          \<longrightarrow> length (pageObjs s) \<le> p)"
  proof (cases "getPage V pageId s1")
    case None
    with assms(2) have "createPage V ctxId pageId s1 = (Inr p, s2)"
      by (simp add: existingOrNewPage_def)
    from createPage_fresh[OF this] l1 show ?thesis by simp
  next
    case (Some q')
    with assms(2) have
      "andThen (page_isClosed q')
            (\<lambda>closed. if \<not> closed then return q'
                       else createPage V ctxId pageId) s1 = (Inr p, s2)"
      by (simp add: existingOrNewPage_def)
    then show ?thesis
    proof (cases rule: andThen_cases)
      case (goes wasClosed sx)
      note ic = page_isClosed_result[OF goes(1)]
      show ?thesis
      proof (cases wasClosed)
        case True
        with goes(2) have "createPage V ctxId pageId sx = (Inr p, s2)" by simp
        from createPage_fresh[OF this] l1 ic(1) show ?thesis by simp
      next
        case False
        with goes(2) have p: "p = q'" "s2 = sx" by (simp_all add: return_def)
        have same: "pagePool s1 = pagePool s"
          using pool Some by (auto simp: getPage_def)
        then have g: "getPage V pageId s = Some q'" using Some by (simp add: getPage_def)
        have "\<not> (q' < length (pageObjs s) \<and> pageClosed (pageObjs s ! q'))"
          using c1[of q'] ic(3) False by auto
        with g p ic False show ?thesis by auto
      qed
    qed simp
  qed
  then show "p < length (pageObjs s2)" "\<not> pageClosed (pageObjs s2 ! p)"
    and "getPage V pageId s = None
          \<or> (\<exists>q. getPage V pageId s = Some q \<and> q < length (pageObjs s)
                   \<and> pageClosed (pageObjs s ! q))
          \<Longrightarrow> length (pageObjs s) \<le> p"
    by blast+
qed

lemma inert_called: "inert (called c)"
  by (auto simp: inert_def called_def split: option.splits)

lemma inert_goto: "inert (goto p url)"
  by (simp add: goto_def inert_called)

lemma inert_evaluate: "inert (evaluate p)"
  by (auto simp: inert_def evaluate_def called_def split: option.splits)

lemma inert_fill: "inert (\<lambda>s'. fill p sel (g s') s')"
  by (auto simp: inert_def fill_def called_def split: option.splits)

lemma inert_click: "inert (click p sel)"
  by (simp add: click_def inert_called)

lemma inert_press: "inert (press p k)"
  by (simp add: press_def inert_called)

lemma inert_waitForLoadState: "inert (waitForLoadState p)"
  by (simp add: waitForLoadState_def inert_called)

lemma works_on_return: "works_on p (return p)"
  by (simp add: works_on_def return_def)

lemma works_on_if: "works_on p m \<Longrightarrow> works_on p n \<Longrightarrow> works_on p (if c then m else n)"
  by simp

lemma works_on_andThen:
  assumes "inert m" "\<And>a. works_on p (f a)"
  shows "works_on p (andThen m f)"
  unfolding works_on_def
proof (intro allI impI)
  fix s r s' assume "andThen m f s = (r, s')"
  then show "pageObjs s' = pageObjs s \<and> (\<forall>q. r = Inr q \<longrightarrow> q = p)"
  proof (cases rule: andThen_cases)
    case (fails e)
    with assms(1) show ?thesis by (auto simp: inert_def)
  next
    case (goes a s1)
    from assms(1) goes(1) have "pageObjs s1 = pageObjs s" by (auto simp: inert_def)
    moreover from assms(2)[of a] goes(2)
    have "pageObjs s' = pageObjs s1 \<and> (\<forall>q. r = Inr q \<longrightarrow> q = p)"
      unfolding works_on_def by blast
    ultimately show ?thesis by simp
  qed
qed

lemma onch_form:
  "works_on p
     (andThen (goto p onch_login_url)
        (\<lambda>_. andThen (\<lambda>s'. fill p onch_id_selector (configGet s' (onchEmailKey V store)) s')
           (\<lambda>_. andThen (\<lambda>s'. fill p onch_password_selector
                                  (configGet s' (onchPasswordKey V store)) s')
              (\<lambda>_. andThen (click p onch_login_button)
                 (\<lambda>_. if waitsAfterSubmit V
                       then andThen (waitForLoadState p) (\<lambda>_. return p)
                       else return p)))))"
  by (intro works_on_andThen works_on_if works_on_return inert_goto inert_fill inert_click
      inert_waitForLoadState)

lemma coupang_form:
  "works_on p
     (andThen (goto p coupang_login_url)
        (\<lambda>_. andThen (evaluate p)
           (\<lambda>isLoginPage.
              if \<not> isLoginPage then return p
              else andThen (\<lambda>s'. fill p ''#username'' (configGet s' (coupangEmailKey V)) s')
                     (\<lambda>_. andThen (\<lambda>s'. fill p ''#password''
                                         (configGet s' (coupangPasswordKey V)) s')
                        (\<lambda>_. andThen (press p ''Enter'')
                           (\<lambda>_. if waitsAfterSubmit V
                                 then andThen (waitForLoadState p) (\<lambda>_. return p)
                                 else return p))))))"
  by (intro works_on_andThen works_on_if works_on_return inert_goto inert_evaluate inert_fill
      inert_press inert_waitForLoadState)

lemma login_page:
  assumes "andThen (ensureBrowser V browserOption)
             (\<lambda>_. andThen (existingOrNewPage V ctxId pageId) T) s = (Inr p, s')"
    and "\<And>q. works_on q (T q)"
  shows "p < length (pageObjs s') \<and> \<not> pageClosed (pageObjs s' ! p)
     \<and> (\<forall>q<length (pageObjs s). pageClosed (pageObjs s ! q) \<longrightarrow> p \<noteq> q)
     \<and> (getPage V pageId s = None
          \<or> (\<exists>q. getPage V pageId s = Some q \<and> q < length (pageObjs s)
                   \<and> pageClosed (pageObjs s ! q))
          \<longrightarrow> length (pageObjs s) \<le> p)"
  using assms(1)
proof (cases rule: andThen_cases)
  case (goes u s1)
  from goes(2) show ?thesis
  proof (cases rule: andThen_cases)
    case (goes q s2)
    from assms(2)[of q] goes(2) have t: "pageObjs s' = pageObjs s2" "p = q"
      unfolding works_on_def by blast+
    note c = page_choice[OF \<open>ensureBrowser V browserOption s = (Inr u, s1)\<close> goes(1)]
    from c(4) have mono: "\<forall>q0<length (pageObjs s). pageClosed (pageObjs s ! q0)
                            \<longrightarrow> pageClosed (pageObjs s2 ! q0)"
      by (simp add: evolves_def)
    from c(1,2) t have a: "p < length (pageObjs s')" "\<not> pageClosed (pageObjs s' ! p)"
      by simp_all
    from mono a(2) t(1) have b: "\<forall>q0<length (pageObjs s). pageClosed (pageObjs s ! q0) \<longrightarrow> p \<noteq> q0"
      by auto
    from c(3) t(2) have d: "getPage V pageId s = None
          \<or> (\<exists>q. getPage V pageId s = Some q \<and> q < length (pageObjs s)
                   \<and> pageClosed (pageObjs s ! q))
          \<longrightarrow> length (pageObjs s) \<le> p"
      by blast
    from a b d show ?thesis by blast
  qed simp
qed simp

lemma string_of_nat_1: "string_of_nat (Suc 0) = ''1''"
  by (subst string_of_nat.simps) (simp add: digit_char_def)

subsection \<open>Claim C2\<close>

text \<open>
  C2 fails as stated, for \<open>getPage\<close> and for \<open>createParallelPages\<close>. The page
  \<open>page-shop-job-1\<close> is created in the context \<open>context-shop-job\<close> and then closed by the
  caller that holds it; the pool still maps the identifier to it. \<open>getPage\<close> of this
  identifier then returns the closed page, in both classes, and
  \<open>createParallelPages('shop', 'job', 1)\<close> returns the closed page as well and creates no
  page.
\<close>

theorem getPage_returns_closed_page:
  "getPage PlaywrightService ''page-shop-job-1'' (page_closed_by_caller PlaywrightService) = Some 0
   \<and> pageClosed (pageObjs (page_closed_by_caller PlaywrightService) ! 0)
   \<and> getPage PlaywrightManager ''page-shop-job-1'' (page_closed_by_caller PlaywrightManager) = Some 0
   \<and> pageClosed (pageObjs (page_closed_by_caller PlaywrightManager) ! 0)
   \<and> fst (createParallelPages ''shop'' ''job'' 1 (page_closed_by_caller PlaywrightService))
       = Inr [0]
   \<and> pageObjs (snd (createParallelPages ''shop'' ''job'' 1
                        (page_closed_by_caller PlaywrightService)))
       = [\<lparr>ofContext = 0, pageClosed = True\<rparr>]"
  by (simp add: page_closed_by_caller_def fresh_manager_def new_manager_def lib_defs manager_defs
      PlaywrightService_def PlaywrightManager_def createParallelPages_def string_of_nat_1
      Let_def)

text \<open>
  C2, for the login flows. A closed or absent page is never returned stale by
  \<open>loginToOnchSite\<close> and \<open>loginToCoupangSite\<close>, in both classes and from every state: the
  page that a login returns exists and is open when the login returns; it is none of the
  pages that were closed when the login was called; and when the pool maps the page
  identifier to a closed page, or to none, the page returned is a newly created page object
  (it did not exist when the login was called), distinct from the closed one.
\<close>

theorem login_replaces_closed_page:
  assumes "loginToOnchSite V store ctxId pageId browserOption s = (Inr p, s')
           \<or> loginToCoupangSite V ctxId pageId browserOption s = (Inr p, s')"
  shows "p < length (pageObjs s') \<and> \<not> pageClosed (pageObjs s' ! p)
     \<and> (\<forall>q<length (pageObjs s). pageClosed (pageObjs s ! q) \<longrightarrow> p \<noteq> q)
     \<and> (getPage V pageId s = None
          \<or> (\<exists>q. getPage V pageId s = Some q \<and> q < length (pageObjs s)
                   \<and> pageClosed (pageObjs s ! q))
          \<longrightarrow> length (pageObjs s) \<le> p)"
  using assms
proof
  assume "loginToOnchSite V store ctxId pageId browserOption s = (Inr p, s')"
  then have "andThen (ensureBrowser V browserOption)
             (\<lambda>_. andThen (existingOrNewPage V ctxId pageId)
                (\<lambda>p. andThen (goto p onch_login_url)
                   (\<lambda>_. andThen (\<lambda>s'. fill p onch_id_selector
                                          (configGet s' (onchEmailKey V store)) s')
                      (\<lambda>_. andThen (\<lambda>s'. fill p onch_password_selector
                                             (configGet s' (onchPasswordKey V store)) s')
                         (\<lambda>_. andThen (click p onch_login_button)
                            (\<lambda>_. if waitsAfterSubmit V
                                  then andThen (waitForLoadState p) (\<lambda>_. return p)
                                  else return p))))))
             s = (Inr p, s')"
    by (auto simp: loginToOnchSite_def split: prod.splits sum.splits)
  from login_page[OF this onch_form] show ?thesis .
next
  assume "loginToCoupangSite V ctxId pageId browserOption s = (Inr p, s')"
  then have "andThen (ensureBrowser V browserOption)
             (\<lambda>_. andThen (existingOrNewPage V ctxId pageId)
                (\<lambda>p. andThen (goto p coupang_login_url)
                   (\<lambda>_. andThen (evaluate p)
                      (\<lambda>isLoginPage.
                         if \<not> isLoginPage then return p
                         else andThen (\<lambda>s'. fill p ''#username''
                                               (configGet s' (coupangEmailKey V)) s')
                                (\<lambda>_. andThen (\<lambda>s'. fill p ''#password''
                                                    (configGet s' (coupangPasswordKey V)) s')
                                   (\<lambda>_. andThen (press p ''Enter'')
                                      (\<lambda>_. if waitsAfterSubmit V
                                            then andThen (waitForLoadState p) (\<lambda>_. return p)
                                            else return p)))))))
             s = (Inr p, s')"
    by (auto simp: loginToCoupangSite_def split: prod.splits sum.splits)
  from login_page[OF this coupang_form] show ?thesis .
qed

text \<open>
  In the state of the counterexample, where the page \<open>0\<close> pooled under the identifier is
  closed, both logins return the new page \<open>1\<close>, which is open.
\<close>

theorem login_replaces_closed_page_witness:
  "fst (loginToCoupangSite PlaywrightService ''context-shop-job'' ''page-shop-job-1'' chromium
          (page_closed_by_caller PlaywrightService)) = Inr 1
   \<and> \<not> pageClosed
         (pageObjs (snd (loginToCoupangSite PlaywrightService ''context-shop-job''
                           ''page-shop-job-1'' chromium
                           (page_closed_by_caller PlaywrightService))) ! 1)
   \<and> fst (loginToOnchSite PlaywrightManager ''shop'' ''context-shop-job'' ''page-shop-job-1''
            chromium (page_closed_by_caller PlaywrightManager)) = Inr 1
   \<and> \<not> pageClosed
         (pageObjs (snd (loginToOnchSite PlaywrightManager ''shop'' ''context-shop-job''
                           ''page-shop-job-1'' chromium
                           (page_closed_by_caller PlaywrightManager))) ! 1)"
proof -
  let ?a = "loginToCoupangSite PlaywrightService ''context-shop-job'' ''page-shop-job-1''
              chromium (page_closed_by_caller PlaywrightService)"
  let ?b = "loginToOnchSite PlaywrightManager ''shop'' ''context-shop-job'' ''page-shop-job-1''
              chromium (page_closed_by_caller PlaywrightManager)"
  have ra: "fst ?a = Inr 1"
    by (simp add: page_closed_by_caller_def fresh_manager_def new_manager_def lib_defs
        manager_defs PlaywrightService_def loginToCoupangSite_def)
  have rb: "fst ?b = Inr 1"
    by (simp add: page_closed_by_caller_def fresh_manager_def new_manager_def lib_defs
        manager_defs PlaywrightManager_def loginToOnchSite_def)
  have ea: "?a = (Inr 1, snd ?a)" and eb: "?b = (Inr 1, snd ?b)"
    using ra rb by (simp_all add: prod_eq_iff)
  from login_replaces_closed_page[OF disjI2, OF ea]
  have a: "\<not> pageClosed (pageObjs (snd ?a) ! 1)" by blast
  from login_replaces_closed_page[OF disjI1, OF eb]
  have b: "\<not> pageClosed (pageObjs (snd ?b) ! 1)" by blast
  from ra a rb b show ?thesis by (intro conjI)
qed

end
